theory Spec2Isabelle
  imports Main "HOL-Library.Sublist"
begin

section \<open>Rows delivered by the CSV parser\<close>

text \<open>
  The CSV parser hands every data line to the \<open>data\<close> handler as an object whose
  properties are the header names and whose values are strings. A property is absent
  (\<open>undefined\<close>) when the line has fewer cells than the header; an empty cell is the
  empty string. \<open>None\<close> stands for \<open>undefined\<close>.
\<close>

record row =
  InvoiceNo :: "string option"
  StockCode :: "string option"
  Description :: "string option"
  Quantity :: "string option"
  InvoiceDate :: "string option"
  UnitPrice :: "string option"
  CustomerID :: "string option"
  Country :: "string option"

text \<open>JavaScript truthiness of such a value: \<open>undefined\<close> and \<open>''\<close> are falsy.\<close>

definition truthy :: "string option \<Rightarrow> bool" where
  "truthy v = (case v of None \<Rightarrow> False | Some s \<Rightarrow> s \<noteq> [])"

text \<open>\<open>String.prototype.startsWith\<close> with the default position \<open>0\<close>.\<close>

definition startsWith :: "string \<Rightarrow> string \<Rightarrow> bool" where
  "startsWith s p = (take (length p) s = p)"


section \<open>The relational store\<close>

text \<open>
  The four tables of the schema script. A table is the list of its rows in insertion
  order. Columns declared without \<open>NOT NULL\<close> hold \<open>None\<close> for SQL \<open>NULL\<close>; primary-key
  columns are never \<open>NULL\<close>. Values of the columns typed \<open>TIMESTAMP\<close>, \<open>INTEGER\<close> and
  \<open>NUMERIC(10,2)\<close> are kept as the text that the loader sent.
\<close>

record customer =
  c_customer_id :: string
  c_country :: "string option"

record product =
  p_stock_code :: string
  p_description :: "string option"
  p_popularity_score :: int

record invoice =
  i_invoice_id :: string
  i_customer_id :: "string option"
  i_invoice_date :: "string option"
  i_country :: "string option"
  i_is_cancelled :: bool

record invoice_item =
  ii_id :: nat
  ii_invoice_id :: "string option"
  ii_stock_code :: "string option"
  ii_quantity :: "string option"
  ii_unit_price :: "string option"

text \<open>
  \<open>invoice_items_id_seq\<close> is the sequence behind \<open>id SERIAL\<close>: it holds the last value
  handed out.
\<close>

record database =
  customers :: "customer list"
  products :: "product list"
  invoices :: "invoice list"
  invoice_items :: "invoice_item list"
  invoice_items_id_seq :: nat

definition customer_keys :: "database \<Rightarrow> string set" where
  "customer_keys db = set (map c_customer_id (customers db))"

definition product_keys :: "database \<Rightarrow> string set" where
  "product_keys db = set (map p_stock_code (products db))"

definition invoice_keys :: "database \<Rightarrow> string set" where
  "invoice_keys db = set (map i_invoice_id (invoices db))"


subsection \<open>Statements and their parameters\<close>

text \<open>
  The four parameterised statements of \<open>processBatch\<close>. A parameter is the row field
  as passed to the driver, which sends \<open>undefined\<close> as \<open>NULL\<close> and a string as itself;
  the last parameter of the invoice statement is the boolean \<open>isCancelled\<close>.
\<close>

datatype query =
    InsertCustomer "string option" "string option"
  | InsertProduct "string option" "string option"
  | InsertInvoice "string option" "string option" "string option" "string option" bool
  | InsertInvoiceItem "string option" "string option" "string option" "string option"

datatype coltype = Timestamp | Integer | Numeric

datatype pg_error =
    not_null_violation
  | foreign_key_violation
  | string_data_right_truncation
  | invalid_text_representation coltype
  | in_failed_sql_transaction

text \<open>
  Which texts the store accepts for a \<open>TIMESTAMP\<close>, \<open>INTEGER\<close> or \<open>NUMERIC(10,2)\<close>
  column is decided by the store's input functions, which are not part of the
  repository: they are a parameter of the model.
\<close>

type_synonym pg_input = "coltype \<Rightarrow> string \<Rightarrow> bool"

definition bind_err :: "pg_error + 'a \<Rightarrow> ('a \<Rightarrow> pg_error + 'b) \<Rightarrow> pg_error + 'b" where
  "bind_err m f = (case m of Inl e \<Rightarrow> Inl e | Inr v \<Rightarrow> f v)"

text \<open>
  Assignment to a \<open>VARCHAR(n)\<close> column: a longer value is an error unless the excess
  consists of spaces only, in which case it is cut to \<open>n\<close> characters.
\<close>

definition varchar :: "nat \<Rightarrow> string option \<Rightarrow> pg_error + string option" where
  "varchar n v =
     (case v of
        None \<Rightarrow> Inr None
      | Some s \<Rightarrow>
          if length s \<le> n then Inr (Some s)
          else if list_all (\<lambda>c. c = CHR '' '') (drop n s) then Inr (Some (take n s))
          else Inl string_data_right_truncation)"

definition text_in :: "pg_input \<Rightarrow> coltype \<Rightarrow> string option \<Rightarrow> pg_error + string option" where
  "text_in acc t v =
     (case v of
        None \<Rightarrow> Inr None
      | Some s \<Rightarrow> if acc t s then Inr (Some s) else Inl (invalid_text_representation t))"

text \<open>Conversion of the parameters to the column types of the target table.\<close>

fun coerce :: "pg_input \<Rightarrow> query \<Rightarrow> pg_error + query" where
  "coerce acc (InsertCustomer cid co) =
     bind_err (varchar 20 cid) (\<lambda>cid'.
     bind_err (varchar 50 co) (\<lambda>co'.
     Inr (InsertCustomer cid' co')))"
| "coerce acc (InsertProduct sc de) =
     bind_err (varchar 20 sc) (\<lambda>sc'.
     Inr (InsertProduct sc' de))"
| "coerce acc (InsertInvoice iid cid dt co canc) =
     bind_err (varchar 20 iid) (\<lambda>iid'.
     bind_err (varchar 20 cid) (\<lambda>cid'.
     bind_err (text_in acc Timestamp dt) (\<lambda>dt'.
     bind_err (varchar 50 co) (\<lambda>co'.
     Inr (InsertInvoice iid' cid' dt' co' canc)))))"
| "coerce acc (InsertInvoiceItem iid sc qty pr) =
     bind_err (varchar 20 iid) (\<lambda>iid'.
     bind_err (varchar 20 sc) (\<lambda>sc'.
     bind_err (text_in acc Integer qty) (\<lambda>qty'.
     bind_err (text_in acc Numeric pr) (\<lambda>pr'.
     Inr (InsertInvoiceItem iid' sc' qty' pr')))))"

text \<open>A foreign key is satisfied by \<open>NULL\<close> or by a key of the referenced table.\<close>

definition references :: "string option \<Rightarrow> string set \<Rightarrow> bool" where
  "references v keys = (case v of None \<Rightarrow> True | Some k \<Rightarrow> k \<in> keys)"

text \<open>
  Execution of a statement whose values have been converted. The result is the error,
  if any, and the store afterwards. \<open>ON CONFLICT (key) DO NOTHING\<close> skips the row when
  the key is present, so that no foreign key is checked for it; a failed statement leaves
  the tables as they were. The \<open>id\<close> of an invoice item is drawn from the sequence when
  the row is formed, before its foreign keys are checked.
\<close>

fun store_row :: "query \<Rightarrow> database \<Rightarrow> pg_error option \<times> database" where
  "store_row (InsertCustomer cid co) db =
     (case cid of
        None \<Rightarrow> (Some not_null_violation, db)
      | Some k \<Rightarrow>
          if k \<in> customer_keys db then (None, db)
          else (None, db\<lparr>customers := customers db @ [\<lparr>c_customer_id = k, c_country = co\<rparr>]\<rparr>))"
| "store_row (InsertProduct sc de) db =
     (case sc of
        None \<Rightarrow> (Some not_null_violation, db)
      | Some k \<Rightarrow>
          if k \<in> product_keys db then (None, db)
          else (None, db\<lparr>products := products db @
                  [\<lparr>p_stock_code = k, p_description = de, p_popularity_score = 0\<rparr>]\<rparr>))"
| "store_row (InsertInvoice iid cid dt co canc) db =
     (case iid of
        None \<Rightarrow> (Some not_null_violation, db)
      | Some k \<Rightarrow>
          if k \<in> invoice_keys db then (None, db)
          else if references cid (customer_keys db)
          then (None, db\<lparr>invoices := invoices db @
                  [\<lparr>i_invoice_id = k, i_customer_id = cid, i_invoice_date = dt,
                    i_country = co, i_is_cancelled = canc\<rparr>]\<rparr>)
          else (Some foreign_key_violation, db))"
| "store_row (InsertInvoiceItem iid sc qty pr) db =
     (let n = invoice_items_id_seq db + 1;
          db1 = db\<lparr>invoice_items_id_seq := n\<rparr>
      in if references iid (invoice_keys db) \<and> references sc (product_keys db)
         then (None, db1\<lparr>invoice_items := invoice_items db @
                 [\<lparr>ii_id = n, ii_invoice_id = iid, ii_stock_code = sc,
                   ii_quantity = qty, ii_unit_price = pr\<rparr>]\<rparr>)
         else (Some foreign_key_violation, db1))"

definition client_query :: "pg_input \<Rightarrow> query \<Rightarrow> database \<Rightarrow> pg_error option \<times> database" where
  "client_query acc q db =
     (case coerce acc q of
        Inl e \<Rightarrow> (Some e, db)
      | Inr q' \<Rightarrow> store_row q' db)"

text \<open>
  \<open>ROLLBACK\<close> restores the tables as they were at \<open>BEGIN\<close>; a sequence is not
  transactional and keeps its value.
\<close>

definition rollback :: "database \<Rightarrow> database \<Rightarrow> database" where
  "rollback snapshot cur = snapshot\<lparr>invoice_items_id_seq := invoice_items_id_seq cur\<rparr>"


section \<open>The loader: \<open>processBatch\<close>\<close>

text \<open>The statements issued for one row, in the order of the loop body.\<close>

definition row_queries :: "row \<Rightarrow> query list" where
  "row_queries r =
     (if truthy (CustomerID r) then [InsertCustomer (CustomerID r) (Country r)] else []) @
     (if truthy (StockCode r) \<and> truthy (Description r)
      then [InsertProduct (StockCode r) (Description r)] else []) @
     (case InvoiceNo r of
        None \<Rightarrow> []
      | Some no \<Rightarrow>
          if no \<noteq> []
          then [InsertInvoice (InvoiceNo r) (CustomerID r) (InvoiceDate r) (Country r)
                  (startsWith no ''C'')]
          else []) @
     (if truthy (InvoiceNo r) \<and> truthy (StockCode r)
      then [InsertInvoiceItem (InvoiceNo r) (StockCode r) (Quantity r) (UnitPrice r)] else [])"

definition batch_queries :: "row list \<Rightarrow> query list" where
  "batch_queries batch = concat (map row_queries batch)"

text \<open>
  The statements are awaited one after the other; the first one that is rejected throws,
  so none of the later ones is issued.
\<close>

fun run_queries :: "pg_input \<Rightarrow> query list \<Rightarrow> database \<Rightarrow> pg_error option \<times> database" where
  "run_queries acc [] db = (None, db)"
| "run_queries acc (q # qs) db =
     (case client_query acc q db of
        (Some e, db') \<Rightarrow> (Some e, db')
      | (None, db') \<Rightarrow> run_queries acc qs db')"

datatype console_line = Connected | Processed nat | ErrorProcessingBatch pg_error | Completed

text \<open>The connection, the module variable \<open>processedRows\<close> and what was written to the console.\<close>

record loader =
  client :: database
  processedRows :: nat
  console :: "console_line list"

text \<open>
  A call of \<open>processBatch\<close> while no other call uses the connection: \<open>BEGIN\<close>, the
  statements of the batch, then \<open>COMMIT\<close>, the new count and its line on the console; when
  a statement is rejected, the \<open>catch\<close> block rolls back and logs the error.
\<close>

definition processBatch :: "pg_input \<Rightarrow> row list \<Rightarrow> loader \<Rightarrow> loader" where
  "processBatch acc batch st =
     (case run_queries acc (batch_queries batch) (client st) of
        (None, db') \<Rightarrow>
          (let n = processedRows st + length batch
           in st\<lparr>client := db', processedRows := n, console := console st @ [Processed n]\<rparr>)
      | (Some e, db') \<Rightarrow>
          st\<lparr>client := rollback (client st) db',
             console := console st @ [ErrorProcessingBatch e]\<rparr>)"


section \<open>Calls of \<open>processBatch\<close> that share the connection\<close>

text \<open>
  \<open>processBatch\<close> above is a call that has the connection to itself from \<open>BEGIN\<close> to
  \<open>COMMIT\<close>; that it is what the calls below amount to when one is made alone is proved
  further down. A call is an \<open>async\<close> function: it submits one statement, awaits its result
  and only then submits the next one. When a second call is made before the first has
  returned, both submit their statements to the one client, which sends them one at a
  time in the order in which they were submitted.

  The statements that a call submits: \<open>BEGIN\<close>, those of its records, \<open>COMMIT\<close>, and
  \<open>ROLLBACK\<close> from the \<open>catch\<close> block.
\<close>

datatype statement = Begin | Run query | Commit | Rollback

text \<open>
  The session between two statements: the store, the tables as they were at \<open>BEGIN\<close>
  while a transaction is open, and whether that transaction has failed. \<open>BEGIN\<close> inside a
  transaction and \<open>COMMIT\<close> or \<open>ROLLBACK\<close> outside of one raise a warning only. In a failed
  transaction every statement but \<open>COMMIT\<close> and \<open>ROLLBACK\<close> is rejected, and \<open>COMMIT\<close> rolls
  back.
\<close>

record session =
  store :: database
  begun :: "database option"
  failed :: bool

fun execute :: "pg_input \<Rightarrow> statement \<Rightarrow> session \<Rightarrow> pg_error option \<times> session" where
  "execute acc Begin s =
     (if failed s then (Some in_failed_sql_transaction, s)
      else case begun s of
             None \<Rightarrow> (None, s\<lparr>begun := Some (store s)\<rparr>)
           | Some b \<Rightarrow> (None, s))"
| "execute acc (Run q) s =
     (if failed s then (Some in_failed_sql_transaction, s)
      else case client_query acc q (store s) of
             (None, db') \<Rightarrow> (None, s\<lparr>store := db'\<rparr>)
           | (Some e, db') \<Rightarrow> (Some e, s\<lparr>store := db', failed := (begun s \<noteq> None)\<rparr>))"
| "execute acc Commit s =
     (case begun s of
        None \<Rightarrow> (None, s)
      | Some b \<Rightarrow>
          (None, \<lparr>store = (if failed s then rollback b (store s) else store s),
                  begun = None, failed = False\<rparr>))"
| "execute acc Rollback s =
     (case begun s of
        None \<Rightarrow> (None, s)
      | Some b \<Rightarrow> (None, \<lparr>store = rollback b (store s), begun = None, failed = False\<rparr>))"

text \<open>
  A call that has not returned: the batch it was given, the statements it has still to
  submit if none is rejected (the first of them is submitted and awaited), and the error
  that its \<open>catch\<close> block holds.
\<close>

record call =
  argument :: "row list"
  todo :: "statement list"
  caught :: "pg_error option"

definition open_call :: "row list \<Rightarrow> call" where
  "open_call b =
     \<lparr>argument = b, todo = Begin # map Run (batch_queries b) @ [Commit], caught = None\<rparr>"

text \<open>
  The end of a call, on \<open>processedRows\<close> and the console: after \<open>COMMIT\<close> the count is
  raised and logged, after the \<open>ROLLBACK\<close> of the \<open>catch\<close> block the error is logged.
\<close>

definition return_call ::
    "call \<Rightarrow> nat \<times> console_line list \<Rightarrow> nat \<times> console_line list" where
  "return_call c out =
     (case caught c of
        None \<Rightarrow> (let n = fst out + length (argument c) in (n, snd out @ [Processed n]))
      | Some e \<Rightarrow> (fst out, snd out @ [ErrorProcessingBatch e]))"

text \<open>
  The client works off the submitted statements, the head of the list first. The call whose
  statement has been answered goes on: it submits its next statement behind those already
  waiting or, when the statement was rejected inside the \<open>try\<close> block, \<open>ROLLBACK\<close>; after
  its last statement it returns. (A rejected \<open>ROLLBACK\<close> would leave the call without a
  result; the session never rejects one.)
\<close>

function drain ::
    "pg_input \<Rightarrow> call list \<Rightarrow> session \<Rightarrow> nat \<times> console_line list \<Rightarrow>
     session \<times> nat \<times> console_line list" where
  "drain acc [] s out = (s, out)"
| "drain acc (c # cs) s out =
     (case todo c of
        [] \<Rightarrow> drain acc cs s out
      | t # ts \<Rightarrow>
          (case execute acc t s of
             (None, s') \<Rightarrow>
               if ts = [] then drain acc cs s' (return_call c out)
               else drain acc (cs @ [c\<lparr>todo := ts\<rparr>]) s' out
           | (Some e, s') \<Rightarrow>
               if caught c = None
               then drain acc (cs @ [c\<lparr>todo := [Rollback], caught := Some e\<rparr>]) s' out
               else drain acc cs s' out))"
  by pat_completeness auto
termination
  by (relation "measure (\<lambda>(acc, cs, s, out).
        length cs + sum_list (map (\<lambda>c. 2 * length (todo c) + (if caught c = None then 1 else 0)) cs))")
     auto

text \<open>
  The calls made with the given batches, none of which has returned, run to their end on
  an idle connection.
\<close>

definition settle :: "pg_input \<Rightarrow> row list list \<Rightarrow> loader \<Rightarrow> loader" where
  "settle acc bs st =
     (case drain acc (map open_call bs) \<lparr>store = client st, begun = None, failed = False\<rparr>
             (processedRows st, console st) of
        (s, n, con) \<Rightarrow> \<lparr>client = store s, processedRows = n, console = con\<rparr>)"


section \<open>The accumulator: \<open>populateDatabase\<close>\<close>

definition batchSize :: nat where
  "batchSize = 1000"

text \<open>
  The handlers of the stream, over the module variable \<open>currentBatch\<close>, the flow state of
  the stream and the state \<open>world\<close> in which calls of \<open>processBatch\<close> are made. What a call
  does to that state is a parameter, so that the calls can be observed;
  \<open>populateDatabase\<close> below makes them on the connection.

  The \<open>data\<close> handler appends the record and, when the buffer is full, pauses the stream
  and calls \<open>processBatch\<close> with a copy of the buffer. It returns with that call pending
  and the buffer as it is.
\<close>

record 's pipeline =
  currentBatch :: "row list"
  paused :: bool
  world :: 's

definition on_data :: "(row list \<Rightarrow> 's \<Rightarrow> 's) \<Rightarrow> row \<Rightarrow> 's pipeline \<Rightarrow> 's pipeline" where
  "on_data call r p =
     (let b = currentBatch p @ [r]
      in if length b \<ge> batchSize
         then \<lparr>currentBatch = b, paused = True, world = call b (world p)\<rparr>
         else p\<lparr>currentBatch := b\<rparr>)"

text \<open>The \<open>then\<close> callback of that call: it empties the buffer and resumes the stream.\<close>

definition on_then :: "'s pipeline \<Rightarrow> 's pipeline" where
  "on_then p = p\<lparr>currentBatch := [], paused := False\<rparr>"

text \<open>The \<open>end\<close> handler up to its \<open>await\<close>: a buffer that is not empty is handed over.\<close>

definition on_end :: "(row list \<Rightarrow> 's \<Rightarrow> 's) \<Rightarrow> 's pipeline \<Rightarrow> 's pipeline" where
  "on_end call p =
     (if length (currentBatch p) > 0 then p\<lparr>world := call (currentBatch p) (world p)\<rparr> else p)"

text \<open>
  The end of the stream. The \<open>end\<close> handler runs; the pending calls, if any, run to their
  end (\<open>await\<close>); the \<open>then\<close> callback of a call made by the \<open>data\<close> handler runs when that
  call has returned; then the \<open>end\<close> handler goes on behind its \<open>await\<close> (\<open>fin\<close>).
\<close>

definition end_of_stream ::
    "(row list \<Rightarrow> 's \<Rightarrow> 's) \<Rightarrow> ('s \<Rightarrow> 's) \<Rightarrow> ('s \<Rightarrow> 's) \<Rightarrow> 's pipeline \<Rightarrow> 's pipeline" where
  "end_of_stream call await fin p =
     (let p1 = on_end call p;
          p2 = (if paused p \<or> length (currentBatch p) > 0
                then p1\<lparr>world := await (world p1)\<rparr> else p1);
          p3 = (if paused p then on_then p2 else p2)
      in p3\<lparr>world := fin (world p3)\<rparr>)"

text \<open>
  The events of a stream that delivers the given records. A paused stream delivers no
  \<open>data\<close> event: before the next record the pending call runs to its end and its \<open>then\<close>
  callback resumes the stream. The \<open>end\<close> event that follows the last record is not held
  back by the pause: when the last record fills the buffer, the \<open>end\<close> handler runs while
  the call made for it is pending and the buffer is still full.
\<close>

fun stream_events ::
    "(row list \<Rightarrow> 's \<Rightarrow> 's) \<Rightarrow> ('s \<Rightarrow> 's) \<Rightarrow> ('s \<Rightarrow> 's) \<Rightarrow> row list \<Rightarrow> 's pipeline \<Rightarrow>
     's pipeline" where
  "stream_events call await fin [] p = end_of_stream call await fin p"
| "stream_events call await fin (r # rs) p =
     (let p1 = on_data call r p
      in if paused p1 \<and> rs \<noteq> []
         then stream_events call await fin rs (on_then (p1\<lparr>world := await (world p1)\<rparr>))
         else stream_events call await fin rs p1)"

text \<open>
  On the connection: the calls that have not returned, and the state of the program. A call
  joins the pending ones; they run to their end together. Of the moments at which the \<open>end\<close>
  event can arrive while a call is pending, the earliest is taken: the call of the \<open>end\<close>
  handler submits its \<open>BEGIN\<close> before the first statement of the pending call is answered.
\<close>

record connection =
  pending :: "row list list"
  app :: loader

definition call_processBatch :: "row list \<Rightarrow> connection \<Rightarrow> connection" where
  "call_processBatch b w = w\<lparr>pending := pending w @ [b]\<rparr>"

definition await_calls :: "pg_input \<Rightarrow> connection \<Rightarrow> connection" where
  "await_calls acc w = \<lparr>pending = [], app = settle acc (pending w) (app w)\<rparr>"

definition completed :: "loader \<Rightarrow> loader" where
  "completed st = st\<lparr>console := console st @ [Completed]\<rparr>"

definition connect :: "database \<Rightarrow> loader" where
  "connect db = \<lparr>client = db, processedRows = 0, console = [Connected]\<rparr>"

definition finish_run :: "connection \<Rightarrow> connection" where
  "finish_run w = w\<lparr>app := completed (app w)\<rparr>"

definition populateDatabase :: "pg_input \<Rightarrow> row list \<Rightarrow> database \<Rightarrow> loader" where
  "populateDatabase acc rows db =
     app (world (stream_events call_processBatch (await_calls acc) finish_run rows
        \<lparr>currentBatch = [], paused = False, world = \<lparr>pending = [], app = connect db\<rparr>\<rparr>))"


section \<open>The groups of the specification\<close>

text \<open>
  The groups that the specification describes for a source of records and a capacity:
  consecutive groups of exactly the capacity, followed by the remaining records, if any.
\<close>

function groups :: "nat \<Rightarrow> 'a list \<Rightarrow> 'a list list" where
  "groups n xs = (if n = 0 \<or> xs = [] then [] else take n xs # groups n (drop n xs))"
  by pat_completeness auto
termination
  by (relation "measure (\<lambda>(n, xs). length xs)") auto

declare groups.simps [simp del]

text \<open>
  What an observer of the calls records: a call of \<open>processBatch\<close> with its batch, the
  pending calls having returned, and the end of the run.
\<close>

datatype handoff = Handed "row list" | Returned | Signalled


section \<open>Properties of stores and runs\<close>


definition group_fails :: "pg_input \<Rightarrow> row list \<Rightarrow> database \<Rightarrow> bool" where
  "group_fails acc batch db \<longleftrightarrow> fst (run_queries acc (batch_queries batch) db) \<noteq> None"

datatype table = Customers | Products | Invoices | InvoiceItems

fun table_of :: "query \<Rightarrow> table" where
  "table_of (InsertCustomer _ _) = Customers"
| "table_of (InsertProduct _ _) = Products"
| "table_of (InsertInvoice _ _ _ _ _) = Invoices"
| "table_of (InsertInvoiceItem _ _ _ _) = InvoiceItems"

text \<open>Every invoice carries the flag that its identifier calls for.\<close>

definition cancel_flags_ok :: "database \<Rightarrow> bool" where
  "cancel_flags_ok db \<longleftrightarrow>
     list_all (\<lambda>i. i_is_cancelled i = startsWith (i_invoice_id i) ''C'') (invoices db)"

text \<open>
  Referential integrity: an invoice names no customer or an existing one, and an invoice
  item names an existing invoice and an existing product.
\<close>

definition names_key :: "string option \<Rightarrow> string set \<Rightarrow> bool" where
  "names_key v keys = (case v of None \<Rightarrow> False | Some k \<Rightarrow> k \<in> keys)"

definition foreign_keys_ok :: "database \<Rightarrow> bool" where
  "foreign_keys_ok db \<longleftrightarrow>
     list_all (\<lambda>i. references (i_customer_id i) (customer_keys db)) (invoices db) \<and>
     list_all (\<lambda>it. names_key (ii_invoice_id it) (invoice_keys db) \<and>
                     names_key (ii_stock_code it) (product_keys db)) (invoice_items db)"

text \<open>The groups of a run that commit, each tried on the store that its predecessors left.\<close>

fun committed :: "pg_input \<Rightarrow> row list list \<Rightarrow> database \<Rightarrow> row list list" where
  "committed acc [] db = []"
| "committed acc (g # gs) db =
     (case run_queries acc (batch_queries g) db of
        (None, db') \<Rightarrow> g # committed acc gs db'
      | (Some e, db') \<Rightarrow> committed acc gs (rollback db db'))"

fun reported :: "console_line list \<Rightarrow> nat list" where
  "reported [] = []"
| "reported (Processed n # ls) = n # reported ls"
| "reported (_ # ls) = reported ls"

fun running_totals :: "nat \<Rightarrow> nat list \<Rightarrow> nat list" where
  "running_totals t [] = []"
| "running_totals t (n # ns) = (t + n) # running_totals (t + n) ns"

fun errors_logged :: "console_line list \<Rightarrow> nat" where
  "errors_logged [] = 0"
| "errors_logged (ErrorProcessingBatch e # ls) = Suc (errors_logged ls)"
| "errors_logged (_ # ls) = errors_logged ls"


section \<open>Sample data\<close>

text \<open>
  An input function for the examples. It accepts plain decimal integers of up to nine
  digits, plain decimals of up to eight integer and two fraction digits, and timestamps
  written \<open>YYYY-MM-DD HH:MM:SS\<close> of the years 1900 to 2099, with a day up to 28 and an
  hour up to 19. The store accepts all of these, and more.
\<close>

definition digit :: "char \<Rightarrow> bool" where
  "digit c \<longleftrightarrow> c \<in> set ''0123456789''"

definition unsigned :: "nat \<Rightarrow> string \<Rightarrow> bool" where
  "unsigned n s \<longleftrightarrow> s \<noteq> [] \<and> length s \<le> n \<and> list_all digit s"

definition magnitude :: "string \<Rightarrow> string" where
  "magnitude s = (if take 1 s = ''-'' then drop 1 s else s)"

definition two_digits :: "string list \<Rightarrow> string \<Rightarrow> bool" where
  "two_digits tens s \<longleftrightarrow> length s = 2 \<and> take 1 s \<in> set tens \<and> list_all digit (drop 1 s)"

definition sample_input :: pg_input where
  "sample_input t s =
     (case t of
        Integer \<Rightarrow> unsigned 9 (magnitude s)
      | Numeric \<Rightarrow>
          (let m = magnitude s;
               ip = takeWhile (\<lambda>c. c \<noteq> CHR ''.'') m;
               fp = dropWhile (\<lambda>c. c \<noteq> CHR ''.'') m
           in unsigned 8 ip \<and> (fp = [] \<or> unsigned 2 (drop 1 fp)))
      | Timestamp \<Rightarrow>
          length s = 19 \<and>
          take 2 s \<in> set [''19'', ''20''] \<and> list_all digit (take 2 (drop 2 s)) \<and>
          take 1 (drop 4 s) = ''-'' \<and>
          take 2 (drop 5 s) \<in> set [''01'', ''02'', ''03'', ''04'', ''05'', ''06'',
                                   ''07'', ''08'', ''09'', ''10'', ''11'', ''12''] \<and>
          take 1 (drop 7 s) = ''-'' \<and>
          take 2 (drop 8 s) \<noteq> ''00'' \<and> two_digits [''0'', ''1'', ''2''] (take 2 (drop 8 s)) \<and>
          take 2 (drop 8 s) \<noteq> ''29'' \<and>
          take 1 (drop 10 s) = '' '' \<and> two_digits [''0'', ''1''] (take 2 (drop 11 s)) \<and>
          take 1 (drop 13 s) = '':'' \<and>
          two_digits [''0'', ''1'', ''2'', ''3'', ''4'', ''5''] (take 2 (drop 14 s)) \<and>
          take 1 (drop 16 s) = '':'' \<and>
          two_digits [''0'', ''1'', ''2'', ''3'', ''4'', ''5''] (take 2 (drop 17 s)))"

definition empty_store :: database where
  "empty_store =
     \<lparr>customers = [], products = [], invoices = [], invoice_items = [],
      invoice_items_id_seq = 0\<rparr>"

text \<open>The three records of the end-to-end example.\<close>

definition example_row1 :: row where
  "example_row1 =
     \<lparr>InvoiceNo = Some ''536365'', StockCode = Some ''85123A'',
      Description = Some ''WHITE HANGING HEART T-LIGHT HOLDER'', Quantity = Some ''6'',
      InvoiceDate = Some ''2010-12-01 08:26:00'', UnitPrice = Some ''2.55'',
      CustomerID = Some ''17850'', Country = Some ''United Kingdom''\<rparr>"

definition example_row2 :: row where
  "example_row2 =
     \<lparr>InvoiceNo = Some ''C536366'', StockCode = Some ''85123A'',
      Description = None, Quantity = Some ''-1'',
      InvoiceDate = Some ''2010-12-01 08:28:00'', UnitPrice = Some ''2.55'',
      CustomerID = Some ''17850'', Country = Some ''United Kingdom''\<rparr>"

text \<open>
  The example leaves the last fields of its third record open; they are completed with
  the customer and country of the other two records.
\<close>

definition example_row3 :: row where
  "example_row3 =
     \<lparr>InvoiceNo = Some ''536367'', StockCode = Some [],
      Description = None, Quantity = Some ''3'',
      InvoiceDate = Some ''2010-12-01 08:34:00'', UnitPrice = Some ''1.69'',
      CustomerID = Some ''17850'', Country = Some ''United Kingdom''\<rparr>"

text \<open>A record of an anonymous purchase: the customer cell of its line is empty.\<close>

definition guest_row :: row where
  "guest_row =
     \<lparr>InvoiceNo = Some ''536414'', StockCode = Some ''22139'',
      Description = Some ''RETROSPOT TEA SET CERAMIC 11 PC'', Quantity = Some ''56'',
      InvoiceDate = Some ''2010-12-01 11:52:00'', UnitPrice = Some ''0.00'',
      CustomerID = Some [], Country = Some ''United Kingdom''\<rparr>"

text \<open>The first record of the example with an empty description cell.\<close>

definition undescribed_row :: row where
  "undescribed_row = example_row1\<lparr>Description := Some []\<rparr>"





text \<open>
  The statement with its values as the store keeps them: a value that is accepted for a
  \<open>VARCHAR(n)\<close> column is its first \<open>n\<close> characters.
\<close>

fun stored_form :: "query \<Rightarrow> query" where
  "stored_form (InsertCustomer cid co) =
     InsertCustomer (map_option (take 20) cid) (map_option (take 50) co)"
| "stored_form (InsertProduct sc de) = InsertProduct (map_option (take 20) sc) de"
| "stored_form (InsertInvoice iid cid dt co canc) =
     InsertInvoice (map_option (take 20) iid) (map_option (take 20) cid) dt
       (map_option (take 50) co) canc"
| "stored_form (InsertInvoiceItem iid sc qty pr) =
     InsertInvoiceItem (map_option (take 20) iid) (map_option (take 20) sc) qty pr"

text \<open>
  A converted statement finds on the store what it needs to succeed without a new
  dimension row: the key of its customer, product or invoice, or both targets of its
  invoice item.
\<close>

fun present :: "query \<Rightarrow> database \<Rightarrow> bool" where
  "present (InsertCustomer cid co) d = names_key cid (customer_keys d)"
| "present (InsertProduct sc de) d = names_key sc (product_keys d)"
| "present (InsertInvoice iid cid dt co canc) d = names_key iid (invoice_keys d)"
| "present (InsertInvoiceItem iid sc qty pr) d =
     (references iid (invoice_keys d) \<and> references sc (product_keys d))"

definition settled :: "pg_input \<Rightarrow> query \<Rightarrow> database \<Rightarrow> bool" where
  "settled acc q d = (case coerce acc q of Inl e \<Rightarrow> False | Inr q' \<Rightarrow> present q' d)"

text \<open>\<open>covers d db\<close>: every key of the dimension tables of \<open>db\<close> is a key in \<open>d\<close>.\<close>

definition covers :: "database \<Rightarrow> database \<Rightarrow> bool" where
  "covers d db \<longleftrightarrow>
     customer_keys db \<subseteq> customer_keys d \<and> product_keys db \<subseteq> product_keys d \<and>
     invoice_keys db \<subseteq> invoice_keys d"

definition item_count :: "query list \<Rightarrow> nat" where
  "item_count qs = length (filter (\<lambda>q. table_of q = InvoiceItems) qs)"


text \<open>
  A source whose first thousand records lack the description of their product, followed
  by one record that carries it.
\<close>

definition late_description_rows :: "row list" where
  "late_description_rows = replicate 1000 undescribed_row @ [example_row1]"

text \<open>The store after the first run over these records: its first group was rolled back.\<close>

definition late_first_store :: database where
  "late_first_store = client (processBatch sample_input [example_row1]
     \<lparr>client = empty_store\<lparr>invoice_items_id_seq := 1\<rparr>, processedRows = 0,
      console = [Connected, ErrorProcessingBatch foreign_key_violation]\<rparr>)"


text \<open>
  The shape of the statements that the loader issues: the guarded parameters are non-empty
  strings, and the flag of an invoice is computed from its identifier.
\<close>

fun issued :: "query \<Rightarrow> bool" where
  "issued (InsertCustomer cid co) = truthy cid"
| "issued (InsertProduct sc de) = (truthy sc \<and> truthy de)"
| "issued (InsertInvoice iid cid dt co canc) =
     (case iid of None \<Rightarrow> False | Some no \<Rightarrow> no \<noteq> [] \<and> canc = startsWith no ''C'')"
| "issued (InsertInvoiceItem iid sc qty pr) = (truthy iid \<and> truthy sc)"






text \<open>
  The statements of two calls with the same batch in the order in which the client sends
  them, once both have begun: each statement of the batch twice in a row.
\<close>

fun doubled :: "'a list \<Rightarrow> 'a list" where
  "doubled [] = []"
| "doubled (x # xs) = x # x # doubled xs"

text \<open>
  What the handlers make of the groups of a source: a call for every group, awaited before
  the next one, and two calls for a last group that is full.
\<close>

fun hand_over :: "(row list \<Rightarrow> 's \<Rightarrow> 's) \<Rightarrow> ('s \<Rightarrow> 's) \<Rightarrow> row list list \<Rightarrow> 's \<Rightarrow> 's" where
  "hand_over call await [] w = w"
| "hand_over call await [g] w =
     (if length g \<ge> batchSize then await (call g (call g w)) else await (call g w))"
| "hand_over call await (g # g' # gs) w = hand_over call await (g' # gs) (await (call g w))"


section \<open>Observing the calls of a run\<close>

text \<open>
  An observer in the place of the connection: it counts the calls of \<open>processBatch\<close> that
  have not returned, keeps the highest count seen, and records each call with its batch,
  the return of each pending call and the end of the run.
\<close>

record observer =
  in_flight :: nat
  peak :: nat
  trace :: "handoff list"

definition observe_call :: "row list \<Rightarrow> observer \<Rightarrow> observer" where
  "observe_call g ob =
     \<lparr>in_flight = in_flight ob + 1, peak = max (peak ob) (in_flight ob + 1),
      trace = trace ob @ [Handed g]\<rparr>"

definition observe_return :: "observer \<Rightarrow> observer" where
  "observe_return ob =
     \<lparr>in_flight = 0, peak = peak ob, trace = trace ob @ replicate (in_flight ob) Returned\<rparr>"

definition observe_end :: "observer \<Rightarrow> observer" where
  "observe_end ob = ob\<lparr>trace := trace ob @ [Signalled]\<rparr>"

definition observed :: "row list \<Rightarrow> observer" where
  "observed rows =
     world (stream_events observe_call observe_return observe_end rows
       \<lparr>currentBatch = [], paused = False, world = \<lparr>in_flight = 0, peak = 0, trace = []\<rparr>\<rparr>)"

text \<open>The records that the calls of a trace were given, in the order of the calls.\<close>

fun handed :: "handoff list \<Rightarrow> row list" where
  "handed [] = []"
| "handed (Handed g # hs) = g @ handed hs"
| "handed (_ # hs) = handed hs"


section \<open>Grouping\<close>

lemma groups_Nil: "groups n [] = []"
  by (simp add: groups.simps)

lemma groups_short: "xs \<noteq> [] \<Longrightarrow> length xs \<le> n \<Longrightarrow> groups n xs = [xs]"
  by (subst groups.simps) (cases xs; auto simp: groups_Nil)

lemma groups_full: "0 < n \<Longrightarrow> length b = n \<Longrightarrow> groups n (b @ xs) = b # groups n xs"
  by (subst groups.simps) auto

lemma concat_groups: "0 < n \<Longrightarrow> concat (groups n xs) = xs"
proof (induction n xs rule: groups.induct)
  case (1 n xs)
  show ?case
  proof (cases "xs = []")
    case True
    then show ?thesis by (simp add: groups_Nil)
  next
    case False
    with 1 have "concat (groups n (drop n xs)) = drop n xs" by simp
    with False 1(2) show ?thesis by (subst groups.simps) simp
  qed
qed

lemma groups_sizes: "g \<in> set (groups n xs) \<Longrightarrow> g \<noteq> [] \<and> length g \<le> n"
proof (induction n xs rule: groups.induct)
  case (1 n xs)
  from 1(2) have ne: "n \<noteq> 0" "xs \<noteq> []" by (auto simp: groups.simps split: if_splits)
  from 1(2) ne have "g = take n xs \<or> g \<in> set (groups n (drop n xs))"
    by (subst (asm) groups.simps) auto
  with 1(1) ne show ?case by auto
qed

lemma groups_butlast_full: "g \<in> set (butlast (groups n xs)) \<Longrightarrow> length g = n"
proof (induction n xs rule: groups.induct)
  case (1 n xs)
  from 1(2) have ne: "n \<noteq> 0" "xs \<noteq> []" by (auto simp: groups.simps split: if_splits)
  have eq: "groups n xs = take n xs # groups n (drop n xs)"
    using ne by (subst groups.simps) simp
  show ?case
  proof (cases "groups n (drop n xs) = []")
    case True
    with 1(2) eq show ?thesis by simp
  next
    case False
    then have "drop n xs \<noteq> []" by (auto simp: groups_Nil)
    then have len: "length (take n xs) = n" by simp
    from 1(2) eq False have "g = take n xs \<or> g \<in> set (butlast (groups n (drop n xs)))"
      by auto
    with 1(1) ne len show ?thesis by auto
  qed
qed

lemma groups_1001:
  "length b = 1000 \<Longrightarrow> groups batchSize (b @ [r]) = [b, [r]]"
  using groups_full [of batchSize b "[r]"] groups_short [of "[r]" batchSize]
  by (simp add: batchSize_def)

section \<open>One call on the connection\<close>

lemma rollback_tables [simp]:
  "customers (rollback s c) = customers s" "products (rollback s c) = products s"
  "invoices (rollback s c) = invoices s" "invoice_items (rollback s c) = invoice_items s"
  by (simp_all add: rollback_def)


lemma processBatch_failed:
  assumes "run_queries acc (batch_queries batch) (client st) = (Some e, db')"
  shows "processBatch acc batch st =
           st\<lparr>client := rollback (client st) db', console := console st @ [ErrorProcessingBatch e]\<rparr>"
  using assms by (simp add: processBatch_def)

lemma processBatch_committed:
  assumes "run_queries acc (batch_queries batch) (client st) = (None, db')"
  shows "processBatch acc batch st =
           st\<lparr>client := db', processedRows := processedRows st + length batch,
              console := console st @ [Processed (processedRows st + length batch)]\<rparr>"
  using assms by (simp add: processBatch_def Let_def)

lemma run_queries_append:
  "run_queries acc (qs @ rs) db =
     (case run_queries acc qs db of
        (Some e, db') \<Rightarrow> (Some e, db')
      | (None, db') \<Rightarrow> run_queries acc rs db')"
  by (induction qs arbitrary: db) (auto split: prod.splits option.splits)

lemma reported_append: "reported (xs @ ys) = reported xs @ reported ys"
  by (induction xs rule: reported.induct) simp_all

lemma errors_logged_append: "errors_logged (xs @ ys) = errors_logged xs + errors_logged ys"
  by (induction xs rule: errors_logged.induct) simp_all

section \<open>Statements on a store that holds their keys\<close>

lemma varchar_Inr: "varchar n v = Inr v' \<Longrightarrow> v' = map_option (take n) v"
  by (auto simp: varchar_def split: option.splits if_splits)

lemma text_in_Inr: "text_in acc t v = Inr v' \<Longrightarrow> v' = v"
  by (auto simp: text_in_def split: option.splits if_splits)

lemma bind_err_Inr: "bind_err m f = Inr y \<Longrightarrow> \<exists>v. m = Inr v \<and> f v = Inr y"
  by (cases m) (simp_all add: bind_err_def)

lemma coerce_Inr: "coerce acc q = Inr q' \<Longrightarrow> q' = stored_form q"
proof (cases q)
  case (InsertCustomer cid co)
  assume "coerce acc q = Inr q'"
  with InsertCustomer show ?thesis
    by (auto dest!: bind_err_Inr dest: varchar_Inr)
next
  case (InsertProduct sc de)
  assume "coerce acc q = Inr q'"
  with InsertProduct show ?thesis
    by (auto dest!: bind_err_Inr dest: varchar_Inr)
next
  case (InsertInvoice iid cid dt co canc)
  assume "coerce acc q = Inr q'"
  with InsertInvoice show ?thesis
    by (auto dest!: bind_err_Inr dest: varchar_Inr text_in_Inr)
next
  case (InsertInvoiceItem iid sc qty pr)
  assume "coerce acc q = Inr q'"
  with InsertInvoiceItem show ?thesis
    by (auto dest!: bind_err_Inr dest: varchar_Inr text_in_Inr)
qed

lemma table_of_stored_form [simp]: "table_of (stored_form q) = table_of q"
  by (cases q) simp_all

lemma client_query_cases:
  obtains (rejected) e where "coerce acc q = Inl e" "client_query acc q db = (Some e, db)"
  | (accepted) "coerce acc q = Inr (stored_form q)"
      "client_query acc q db = store_row (stored_form q) db"
proof (cases "coerce acc q")
  case (Inl e)
  then show ?thesis using rejected by (simp add: client_query_def)
next
  case (Inr q')
  with coerce_Inr [OF Inr] show ?thesis using accepted by (simp add: client_query_def)
qed

lemma store_row_present:
  "present q d \<Longrightarrow>
   \<exists>d'. store_row q d = (None, d') \<and> customers d' = customers d \<and> products d' = products d \<and>
        invoices d' = invoices d \<and>
        length (invoice_items d') = length (invoice_items d) + item_count [q]"
  by (cases q) (auto simp: names_key_def item_count_def Let_def split: option.splits)

lemma store_row_ok:
  "store_row q db = (None, db') \<Longrightarrow>
   present q db' \<and> covers db' db \<and>
   length (invoice_items db') = length (invoice_items db) + item_count [q]"
  by (cases q)
     (auto simp: names_key_def references_def item_count_def Let_def covers_def
        customer_keys_def product_keys_def invoice_keys_def split: option.splits if_splits)

lemma present_covers: "present q d \<Longrightarrow> covers d' d \<Longrightarrow> present q d'"
  by (cases q) (auto simp: names_key_def references_def covers_def split: option.splits)

lemma covers_refl [simp]: "covers d d"
  by (simp add: covers_def)

lemma covers_trans: "covers a b \<Longrightarrow> covers b c \<Longrightarrow> covers a c"
  by (auto simp: covers_def)

lemma covers_same_tables:
  "customers d' = customers d \<Longrightarrow> products d' = products d \<Longrightarrow> invoices d' = invoices d \<Longrightarrow>
   covers d' d \<and> covers d d'"
  by (simp add: covers_def customer_keys_def product_keys_def invoice_keys_def)

lemma item_count_stored_form [simp]: "item_count [stored_form q] = item_count [q]"
  by (simp add: item_count_def)

lemma client_query_settled:
  assumes "settled acc q d"
  shows "\<exists>d'. client_query acc q d = (None, d') \<and> customers d' = customers d \<and>
           products d' = products d \<and> invoices d' = invoices d \<and>
           length (invoice_items d') = length (invoice_items d) + item_count [q]"
proof (cases acc q d rule: client_query_cases)
  case (rejected e)
  with assms show ?thesis by (simp add: settled_def)
next
  case accepted
  with assms have "present (stored_form q) d" by (simp add: settled_def)
  from store_row_present [OF this] accepted show ?thesis
    by simp
qed

lemma client_query_ok:
  assumes "client_query acc q db = (None, db')"
  shows "settled acc q db' \<and> covers db' db \<and>
         length (invoice_items db') = length (invoice_items db) + item_count [q]"
proof (cases acc q db rule: client_query_cases)
  case (rejected e)
  with assms show ?thesis by simp
next
  case accepted
  with assms have "store_row (stored_form q) db = (None, db')" by simp
  from store_row_ok [OF this] accepted show ?thesis
    by (simp add: settled_def)
qed

lemma settled_covers: "settled acc q d \<Longrightarrow> covers d' d \<Longrightarrow> settled acc q d'"
  by (auto simp: settled_def split: sum.splits intro: present_covers)

lemma item_count_Cons: "item_count (q # qs) = item_count [q] + item_count qs"
  by (simp add: item_count_def)

lemma run_queries_ok:
  "run_queries acc qs db = (None, db') \<Longrightarrow>
   covers db' db \<and> length (invoice_items db') = length (invoice_items db) + item_count qs \<and>
   (\<forall>q \<in> set qs. settled acc q db')"
proof (induction qs arbitrary: db)
  case Nil
  then show ?case by (simp add: item_count_def)
next
  case (Cons q qs)
  from Cons.prems obtain db1 where
    q: "client_query acc q db = (None, db1)" and rest: "run_queries acc qs db1 = (None, db')"
    by (auto split: prod.splits option.splits)
  from client_query_ok [OF q] Cons.IH [OF rest] show ?case
    by (auto intro: covers_trans settled_covers simp: item_count_Cons [of q qs])
qed

lemma run_queries_settled:
  "\<forall>q \<in> set qs. settled acc q d \<Longrightarrow>
   \<exists>d'. run_queries acc qs d = (None, d') \<and> customers d' = customers d \<and>
        products d' = products d \<and> invoices d' = invoices d \<and>
        length (invoice_items d') = length (invoice_items d) + item_count qs"
proof (induction qs arbitrary: d)
  case Nil
  then show ?case by (simp add: item_count_def)
next
  case (Cons q qs)
  from Cons.prems have "settled acc q d" by simp
  from client_query_settled [OF this] obtain d1 where
    q: "client_query acc q d = (None, d1)" and
    same: "customers d1 = customers d" "products d1 = products d" "invoices d1 = invoices d" and
    len: "length (invoice_items d1) = length (invoice_items d) + item_count [q]"
    by blast
  from covers_same_tables [OF same] have "covers d1 d" by simp
  with Cons.prems have "\<forall>q \<in> set qs. settled acc q d1"
    by (auto intro: settled_covers)
  from Cons.IH [OF this] obtain d' where
    "run_queries acc qs d1 = (None, d')" "customers d' = customers d1"
    "products d' = products d1" "invoices d' = invoices d1"
    "length (invoice_items d') = length (invoice_items d1) + item_count qs"
    by blast
  with q same len show ?case
    by (simp add: item_count_Cons [of q qs])
qed

section \<open>Running the same groups again\<close>

lemma errors_logged_processBatch:
  "errors_logged (console (processBatch acc g st)) =
     errors_logged (console st) + (if group_fails acc g (client st) then 1 else 0)"
proof -
  obtain r db' where run: "run_queries acc (batch_queries g) (client st) = (r, db')"
    by (cases "run_queries acc (batch_queries g) (client st)")
  then show ?thesis
    by (cases r)
       (simp_all add: group_fails_def processBatch_committed processBatch_failed
          errors_logged_append)
qed

lemma errors_logged_fold:
  "errors_logged (console st) \<le> errors_logged (console (fold (processBatch acc) gs st))"
proof (induction gs arbitrary: st)
  case Nil
  show ?case by simp
next
  case (Cons g gs)
  have "errors_logged (console st) \<le> errors_logged (console (processBatch acc g st))"
    by (simp add: errors_logged_processBatch)
  also have "\<dots> \<le> errors_logged (console (fold (processBatch acc) gs (processBatch acc g st)))"
    by (rule Cons.IH)
  finally show ?case by simp
qed

lemma processBatch_covers: "covers (client (processBatch acc g st)) (client st)"
proof -
  obtain r db' where run: "run_queries acc (batch_queries g) (client st) = (r, db')"
    by (cases "run_queries acc (batch_queries g) (client st)")
  show ?thesis
  proof (cases r)
    case None
    with run run_queries_ok [of acc "batch_queries g" "client st" db'] show ?thesis
      by (simp add: processBatch_committed)
  next
    case (Some e)
    with run show ?thesis
      by (simp add: processBatch_failed covers_same_tables)
  qed
qed

lemma fold_processBatch_covers: "covers (client (fold (processBatch acc) gs st)) (client st)"
proof (induction gs arbitrary: st)
  case Nil
  show ?case by simp
next
  case (Cons g gs)
  from Cons.IH [of "processBatch acc g st"] processBatch_covers [of acc g st]
  show ?case by (auto intro: covers_trans)
qed

lemma processBatch_settled:
  assumes "\<forall>q \<in> set (batch_queries g). settled acc q (client st)"
  shows "customers (client (processBatch acc g st)) = customers (client st) \<and>
         products (client (processBatch acc g st)) = products (client st) \<and>
         invoices (client (processBatch acc g st)) = invoices (client st) \<and>
         length (invoice_items (client (processBatch acc g st))) =
           length (invoice_items (client st)) + item_count (batch_queries g) \<and>
         console (processBatch acc g st) =
           console st @ [Processed (processedRows st + length g)]"
proof -
  from run_queries_settled [OF assms] obtain d' where
    "run_queries acc (batch_queries g) (client st) = (None, d')"
    "customers d' = customers (client st)" "products d' = products (client st)"
    "invoices d' = invoices (client st)"
    "length (invoice_items d') = length (invoice_items (client st)) + item_count (batch_queries g)"
    by blast
  then show ?thesis by (simp add: processBatch_committed)
qed

lemma rerun_groups:
  assumes "errors_logged (console (fold (processBatch acc) gs st)) = errors_logged (console st)"
    and "covers (client st') (client (fold (processBatch acc) gs st))"
  shows "customers (client (fold (processBatch acc) gs st')) = customers (client st') \<and>
         products (client (fold (processBatch acc) gs st')) = products (client st') \<and>
         invoices (client (fold (processBatch acc) gs st')) = invoices (client st') \<and>
         length (invoice_items (client (fold (processBatch acc) gs st'))) +
           length (invoice_items (client st)) =
         length (invoice_items (client st')) +
           length (invoice_items (client (fold (processBatch acc) gs st))) \<and>
         errors_logged (console (fold (processBatch acc) gs st')) = errors_logged (console st')"
  using assms
proof (induction gs arbitrary: st st')
  case Nil
  show ?case by simp
next
  case (Cons g gs)
  let ?s1 = "processBatch acc g st" and ?t1 = "processBatch acc g st'"
  let ?F = "fold (processBatch acc) gs ?s1"
  from Cons.prems(1) have err: "errors_logged (console ?F) = errors_logged (console st)" by simp
  have "errors_logged (console st) \<le> errors_logged (console ?s1)"
    by (simp add: errors_logged_processBatch)
  moreover have "errors_logged (console ?s1) \<le> errors_logged (console ?F)"
    by (rule errors_logged_fold)
  ultimately have e1: "errors_logged (console ?s1) = errors_logged (console st)"
    and e2: "errors_logged (console ?F) = errors_logged (console ?s1)"
    using err by simp_all
  from e1 have "\<not> group_fails acc g (client st)"
    by (simp add: errors_logged_processBatch split: if_splits)
  then obtain db1 where run: "run_queries acc (batch_queries g) (client st) = (None, db1)"
    by (cases "run_queries acc (batch_queries g) (client st)") (auto simp: group_fails_def)
  then have s1: "client ?s1 = db1" by (simp add: processBatch_committed)
  from run_queries_ok [OF run] have
    len1: "length (invoice_items db1) = length (invoice_items (client st)) + item_count (batch_queries g)"
    and set1: "\<forall>q \<in> set (batch_queries g). settled acc q db1"
    by simp_all
  from Cons.prems(2) have cov: "covers (client st') (client ?F)" by simp
  have "covers (client ?F) db1"
    using fold_processBatch_covers [of acc gs ?s1] s1 by simp
  with cov have "covers (client st') db1" by (rule covers_trans)
  with set1 have "\<forall>q \<in> set (batch_queries g). settled acc q (client st')"
    by (auto intro: settled_covers)
  from processBatch_settled [OF this] have
    t1: "customers (client ?t1) = customers (client st')"
        "products (client ?t1) = products (client st')"
        "invoices (client ?t1) = invoices (client st')"
    and len2: "length (invoice_items (client ?t1)) =
           length (invoice_items (client st')) + item_count (batch_queries g)"
    and con: "console ?t1 = console st' @ [Processed (processedRows st' + length g)]"
    by simp_all
  from covers_same_tables [OF t1] cov have "covers (client ?t1) (client ?F)"
    by (auto intro: covers_trans)
  from Cons.IH [OF e2 this] t1 len1 len2 s1 con show ?case
    by (simp add: errors_logged_append)
qed

lemma batch_queries_Cons: "batch_queries (r # rs) = row_queries r @ batch_queries rs"
  by (simp add: batch_queries_def)

lemma batch_queries_replicate:
  "set (batch_queries (replicate n r)) \<subseteq> set (row_queries r) \<and>
   item_count (batch_queries (replicate n r)) = n * item_count (row_queries r)"
  by (induction n) (auto simp: batch_queries_def item_count_def)

lemma run_queries_fails_first:
  "run_queries acc qs db = (Some e, db') \<Longrightarrow> run_queries acc (qs @ rs) db = (Some e, db')"
  by (simp add: run_queries_append)

section \<open>Invariants of the store\<close>

lemma row_queries_issued: "q \<in> set (row_queries r) \<Longrightarrow> issued q"
  by (cases "InvoiceNo r") (auto simp: row_queries_def truthy_def split: option.splits if_splits)

lemma batch_queries_issued: "q \<in> set (batch_queries batch) \<Longrightarrow> issued q"
  by (auto simp: batch_queries_def dest: row_queries_issued)

lemma startsWith_C: "startsWith s ''C'' \<longleftrightarrow> (\<exists>t. s = CHR ''C'' # t)"
  by (cases s) (auto simp: startsWith_def)

lemma startsWith_take: "startsWith (take 20 s) ''C'' = startsWith s ''C''"
  by (cases s) (simp_all add: startsWith_def)

lemma issued_stored_form: "issued q \<Longrightarrow> issued (stored_form q)"
  by (cases q) (auto simp: truthy_def startsWith_take split: option.splits)

lemma store_row_flags:
  "issued q \<Longrightarrow> cancel_flags_ok db \<Longrightarrow> cancel_flags_ok (snd (store_row q db))"
  by (cases q) (auto simp: cancel_flags_ok_def Let_def split: option.splits)

lemma client_query_flags:
  assumes "issued q" "cancel_flags_ok db"
  shows "cancel_flags_ok (snd (client_query acc q db))"
proof (cases acc q db rule: client_query_cases)
  case (rejected e)
  with assms show ?thesis by simp
next
  case accepted
  with assms show ?thesis by (simp add: store_row_flags issued_stored_form)
qed

lemma run_queries_flags:
  "\<forall>q \<in> set qs. issued q \<Longrightarrow> cancel_flags_ok db \<Longrightarrow>
   cancel_flags_ok (snd (run_queries acc qs db))"
proof (induction qs arbitrary: db)
  case Nil
  then show ?case by simp
next
  case (Cons q qs)
  from Cons.prems have "cancel_flags_ok (snd (client_query acc q db))"
    by (simp add: client_query_flags)
  with Cons show ?case
    by (cases "client_query acc q db") (auto split: option.splits)
qed

lemma processBatch_flags:
  assumes "cancel_flags_ok (client st)"
  shows "cancel_flags_ok (client (processBatch acc batch st))"
proof -
  obtain r db' where run: "run_queries acc (batch_queries batch) (client st) = (r, db')"
    by (cases "run_queries acc (batch_queries batch) (client st)")
  from run_queries_flags [of "batch_queries batch" "client st" acc] assms run
  have ok: "cancel_flags_ok db'" by (auto dest: batch_queries_issued)
  show ?thesis
  proof (cases r)
    case None
    with run ok show ?thesis by (simp add: processBatch_committed)
  next
    case (Some e)
    with run assms show ?thesis by (simp add: processBatch_failed cancel_flags_ok_def)
  qed
qed

lemma fold_processBatch_flags:
  "cancel_flags_ok (client st) \<Longrightarrow> cancel_flags_ok (client (fold (processBatch acc) gs st))"
  by (induction gs arbitrary: st) (simp_all add: processBatch_flags)

section \<open>Referential integrity\<close>

lemma references_mono: "references v K \<Longrightarrow> K \<subseteq> K' \<Longrightarrow> references v K'"
  by (auto simp: references_def split: option.splits)

lemma names_key_mono: "names_key v K \<Longrightarrow> K \<subseteq> K' \<Longrightarrow> names_key v K'"
  by (auto simp: names_key_def split: option.splits)

lemma foreign_keys_ok_covers:
  assumes "foreign_keys_ok db" "covers db' db"
    "invoices db' = invoices db" "invoice_items db' = invoice_items db"
  shows "foreign_keys_ok db'"
  using assms
  by (auto simp: foreign_keys_ok_def covers_def list_all_iff
      intro: references_mono names_key_mono)

lemma keys_of_updates [simp]:
  "customer_keys (db\<lparr>invoice_items := its\<rparr>) = customer_keys db"
  "product_keys (db\<lparr>invoice_items := its\<rparr>) = product_keys db"
  "invoice_keys (db\<lparr>invoice_items := its\<rparr>) = invoice_keys db"
  "customer_keys (db\<lparr>invoice_items_id_seq := n\<rparr>) = customer_keys db"
  "product_keys (db\<lparr>invoice_items_id_seq := n\<rparr>) = product_keys db"
  "invoice_keys (db\<lparr>invoice_items_id_seq := n\<rparr>) = invoice_keys db"
  "customer_keys (db\<lparr>customers := customers db @ [c]\<rparr>) = insert (c_customer_id c) (customer_keys db)"
  "product_keys (db\<lparr>customers := cs\<rparr>) = product_keys db"
  "invoice_keys (db\<lparr>customers := cs\<rparr>) = invoice_keys db"
  "customer_keys (db\<lparr>products := ps\<rparr>) = customer_keys db"
  "product_keys (db\<lparr>products := products db @ [p]\<rparr>) = insert (p_stock_code p) (product_keys db)"
  "invoice_keys (db\<lparr>products := ps\<rparr>) = invoice_keys db"
  "customer_keys (db\<lparr>invoices := is\<rparr>) = customer_keys db"
  "product_keys (db\<lparr>invoices := is\<rparr>) = product_keys db"
  "invoice_keys (db\<lparr>invoices := invoices db @ [i]\<rparr>) = insert (i_invoice_id i) (invoice_keys db)"
  by (simp_all add: customer_keys_def product_keys_def invoice_keys_def)


















section \<open>Calls on a shared connection\<close>

declare drain.simps [simp del]

lemma drain_Nil [simp]: "drain acc [] s out = (s, out)"
  by (simp add: drain.simps)

lemma drain_next:
  "todo c = t # ts \<Longrightarrow> ts \<noteq> [] \<Longrightarrow> execute acc t s = (None, s') \<Longrightarrow>
   drain acc (c # cs) s out = drain acc (cs @ [c\<lparr>todo := ts\<rparr>]) s' out"
  by (simp add: drain.simps)

lemma drain_last:
  "todo c = [t] \<Longrightarrow> execute acc t s = (None, s') \<Longrightarrow>
   drain acc (c # cs) s out = drain acc cs s' (return_call c out)"
  by (simp add: drain.simps)

lemma drain_rejected:
  "todo c = t # ts \<Longrightarrow> caught c = None \<Longrightarrow> execute acc t s = (Some e, s') \<Longrightarrow>
   drain acc (c # cs) s out =
     drain acc (cs @ [c\<lparr>todo := [Rollback], caught := Some e\<rparr>]) s' out"
  by (simp add: drain.simps)

lemma drain_alone:
  "drain acc [\<lparr>argument = g, todo = map Run qs @ [Commit], caught = None\<rparr>]
     \<lparr>store = d, begun = Some b, failed = False\<rparr> out =
   (case run_queries acc qs d of
      (None, d') \<Rightarrow>
        (\<lparr>store = d', begun = None, failed = False\<rparr>,
         fst out + length g, snd out @ [Processed (fst out + length g)])
    | (Some e, d') \<Rightarrow>
        (\<lparr>store = rollback b d', begun = None, failed = False\<rparr>,
         fst out, snd out @ [ErrorProcessingBatch e]))"
proof (induction qs arbitrary: d)
  case Nil
  show ?case
    by (subst drain_last [where t = Commit and s' = "\<lparr>store = d, begun = None, failed = False\<rparr>"])
       (simp_all add: return_call_def Let_def)
next
  case (Cons q qs)
  obtain r d1 where cq: "client_query acc q d = (r, d1)"
    by (cases "client_query acc q d")
  show ?case
  proof (cases r)
    case None
    with cq have ex: "execute acc (Run q) \<lparr>store = d, begun = Some b, failed = False\<rparr> =
        (None, \<lparr>store = d1, begun = Some b, failed = False\<rparr>)"
      by simp
    show ?thesis
      by (subst drain_next [OF _ _ ex, where ts = "map Run qs @ [Commit]"])
         (simp_all add: Cons.IH cq None)
  next
    case (Some e)
    with cq have ex: "execute acc (Run q) \<lparr>store = d, begun = Some b, failed = False\<rparr> =
        (Some e, \<lparr>store = d1, begun = Some b, failed = True\<rparr>)"
      by simp
    have rb: "execute acc Rollback \<lparr>store = d1, begun = Some b, failed = True\<rparr> =
        (None, \<lparr>store = rollback b d1, begun = None, failed = False\<rparr>)"
      by simp
    have "drain acc [\<lparr>argument = g, todo = map Run (q # qs) @ [Commit], caught = None\<rparr>]
            \<lparr>store = d, begun = Some b, failed = False\<rparr> out =
          drain acc [\<lparr>argument = g, todo = [Rollback], caught = Some e\<rparr>]
            \<lparr>store = d1, begun = Some b, failed = True\<rparr> out"
      by (subst drain_rejected [OF _ _ ex, where ts = "map Run qs @ [Commit]"]) simp_all
    also have "\<dots> = (\<lparr>store = rollback b d1, begun = None, failed = False\<rparr>,
          fst out, snd out @ [ErrorProcessingBatch e])"
      by (subst drain_last [OF _ rb]) (simp_all add: return_call_def)
    finally show ?thesis
      by (simp add: cq Some)
  qed
qed

lemma settle_alone: "settle acc [g] st = processBatch acc g st"
proof -
  have ex: "execute acc Begin \<lparr>store = client st, begun = None, failed = False\<rparr> =
      (None, \<lparr>store = client st, begun = Some (client st), failed = False\<rparr>)"
    by simp
  have "drain acc [open_call g] \<lparr>store = client st, begun = None, failed = False\<rparr>
          (processedRows st, console st) =
        drain acc [\<lparr>argument = g, todo = map Run (batch_queries g) @ [Commit], caught = None\<rparr>]
          \<lparr>store = client st, begun = Some (client st), failed = False\<rparr>
          (processedRows st, console st)"
    by (subst drain_next [OF _ _ ex, where ts = "map Run (batch_queries g) @ [Commit]"])
       (simp_all add: open_call_def)
  then show ?thesis
    by (cases st)
       (auto simp: settle_def drain_alone processBatch_def Let_def split: prod.splits option.splits)
qed

lemma drain_pair:
  "drain acc [\<lparr>argument = g, todo = map Run qs @ [Commit], caught = None\<rparr>,
              \<lparr>argument = h, todo = map Run qs @ [Commit], caught = None\<rparr>]
     \<lparr>store = d, begun = Some b, failed = False\<rparr> out =
   (case run_queries acc (doubled qs) d of
      (None, d') \<Rightarrow>
        (\<lparr>store = d', begun = None, failed = False\<rparr>,
         fst out + length g + length h,
         snd out @ [Processed (fst out + length g), Processed (fst out + length g + length h)])
    | (Some e, d') \<Rightarrow>
        (\<lparr>store = rollback b d', begun = None, failed = False\<rparr>,
         fst out,
         snd out @ [ErrorProcessingBatch e, ErrorProcessingBatch in_failed_sql_transaction]))"
proof (induction qs arbitrary: d)
  case Nil
  let ?A = "\<lparr>argument = g, todo = [Commit], caught = None\<rparr>"
  let ?B = "\<lparr>argument = h, todo = [Commit], caught = None\<rparr>"
  have c1: "execute acc Commit \<lparr>store = d, begun = Some b, failed = False\<rparr> =
      (None, \<lparr>store = d, begun = None, failed = False\<rparr>)"
    by simp
  have c2: "execute acc Commit \<lparr>store = d, begun = None, failed = False\<rparr> =
      (None, \<lparr>store = d, begun = None, failed = False\<rparr>)"
    by simp
  have "drain acc [?A, ?B] \<lparr>store = d, begun = Some b, failed = False\<rparr> out =
        drain acc [?B] \<lparr>store = d, begun = None, failed = False\<rparr> (return_call ?A out)"
    by (subst drain_last [OF _ c1]) simp_all
  also have "\<dots> = (\<lparr>store = d, begun = None, failed = False\<rparr>,
        return_call ?B (return_call ?A out))"
    by (subst drain_last [OF _ c2]) simp_all
  finally show ?case
    by (simp add: return_call_def Let_def)
next
  case (Cons q qs)
  let ?ts = "map Run qs @ [Commit]"
  let ?A = "\<lparr>argument = g, todo = Run q # ?ts, caught = None\<rparr>"
  let ?B = "\<lparr>argument = h, todo = Run q # ?ts, caught = None\<rparr>"
  obtain r d1 where cq: "client_query acc q d = (r, d1)"
    by (cases "client_query acc q d")
  show ?case
  proof (cases r)
    case None
    from client_query_ok [of acc q d d1] cq None have "settled acc q d1" by simp
    from client_query_settled [OF this] obtain d2 where cq2: "client_query acc q d1 = (None, d2)"
      by blast
    have e1: "execute acc (Run q) \<lparr>store = d, begun = Some b, failed = False\<rparr> =
        (None, \<lparr>store = d1, begun = Some b, failed = False\<rparr>)"
      using cq None by simp
    have e2: "execute acc (Run q) \<lparr>store = d1, begun = Some b, failed = False\<rparr> =
        (None, \<lparr>store = d2, begun = Some b, failed = False\<rparr>)"
      using cq2 by simp
    have "drain acc [?A, ?B] \<lparr>store = d, begun = Some b, failed = False\<rparr> out =
          drain acc [?B, \<lparr>argument = g, todo = ?ts, caught = None\<rparr>]
            \<lparr>store = d1, begun = Some b, failed = False\<rparr> out"
      by (subst drain_next [OF _ _ e1, where ts = ?ts]) simp_all
    also have "\<dots> = drain acc [\<lparr>argument = g, todo = ?ts, caught = None\<rparr>,
                              \<lparr>argument = h, todo = ?ts, caught = None\<rparr>]
            \<lparr>store = d2, begun = Some b, failed = False\<rparr> out"
      by (subst drain_next [OF _ _ e2, where ts = ?ts]) simp_all
    finally show ?thesis
      by (simp add: Cons.IH cq None cq2)
  next
    case (Some e)
    let ?A' = "\<lparr>argument = g, todo = [Rollback], caught = Some e\<rparr>"
    let ?B' = "\<lparr>argument = h, todo = [Rollback], caught = Some in_failed_sql_transaction\<rparr>"
    have e1: "execute acc (Run q) \<lparr>store = d, begun = Some b, failed = False\<rparr> =
        (Some e, \<lparr>store = d1, begun = Some b, failed = True\<rparr>)"
      using cq Some by simp
    have e2: "execute acc (Run q) \<lparr>store = d1, begun = Some b, failed = True\<rparr> =
        (Some in_failed_sql_transaction, \<lparr>store = d1, begun = Some b, failed = True\<rparr>)"
      by simp
    have r1: "execute acc Rollback \<lparr>store = d1, begun = Some b, failed = True\<rparr> =
        (None, \<lparr>store = rollback b d1, begun = None, failed = False\<rparr>)"
      by simp
    have r2: "execute acc Rollback \<lparr>store = rollback b d1, begun = None, failed = False\<rparr> =
        (None, \<lparr>store = rollback b d1, begun = None, failed = False\<rparr>)"
      by simp
    have "drain acc [?A, ?B] \<lparr>store = d, begun = Some b, failed = False\<rparr> out =
          drain acc [?B, ?A'] \<lparr>store = d1, begun = Some b, failed = True\<rparr> out"
      by (subst drain_rejected [OF _ _ e1, where ts = ?ts]) simp_all
    also have "\<dots> = drain acc [?A', ?B'] \<lparr>store = d1, begun = Some b, failed = True\<rparr> out"
      by (subst drain_rejected [OF _ _ e2, where ts = ?ts]) simp_all
    also have "\<dots> = drain acc [?B'] \<lparr>store = rollback b d1, begun = None, failed = False\<rparr>
          (return_call ?A' out)"
      by (subst drain_last [OF _ r1]) simp_all
    also have "\<dots> = (\<lparr>store = rollback b d1, begun = None, failed = False\<rparr>,
          return_call ?B' (return_call ?A' out))"
      by (subst drain_last [OF _ r2]) simp_all
    finally show ?thesis
      by (simp add: return_call_def cq Some)
  qed
qed

lemma settle_twice:
  "settle acc [g, g] st =
     (case run_queries acc (doubled (batch_queries g)) (client st) of
        (None, d') \<Rightarrow>
          \<lparr>client = d', processedRows = processedRows st + length g + length g,
           console = console st @ [Processed (processedRows st + length g),
                                   Processed (processedRows st + length g + length g)]\<rparr>
      | (Some e, d') \<Rightarrow>
          \<lparr>client = rollback (client st) d', processedRows = processedRows st,
           console = console st @ [ErrorProcessingBatch e,
                                   ErrorProcessingBatch in_failed_sql_transaction]\<rparr>)"
proof -
  let ?ts = "map Run (batch_queries g) @ [Commit]"
  let ?idle = "\<lparr>store = client st, begun = None, failed = False\<rparr>"
  let ?open = "\<lparr>store = client st, begun = Some (client st), failed = False\<rparr>"
  let ?out = "(processedRows st, console st)"
  have b1: "execute acc Begin ?idle = (None, ?open)"
    by simp
  have b2: "execute acc Begin ?open = (None, ?open)"
    by simp
  have "drain acc [open_call g, open_call g] ?idle ?out =
        drain acc [open_call g, \<lparr>argument = g, todo = ?ts, caught = None\<rparr>] ?open ?out"
    by (subst drain_next [OF _ _ b1, where ts = ?ts]) (simp_all add: open_call_def)
  also have "\<dots> = drain acc [\<lparr>argument = g, todo = ?ts, caught = None\<rparr>,
                            \<lparr>argument = g, todo = ?ts, caught = None\<rparr>] ?open ?out"
    by (subst drain_next [OF _ _ b2, where ts = ?ts]) (simp_all add: open_call_def)
  finally show ?thesis
    by (auto simp: settle_def drain_pair split: prod.splits option.splits)
qed

section \<open>The events of a run\<close>

lemma stream_events_hand_over:
  "length b < batchSize \<Longrightarrow>
   world (stream_events call await fin rows \<lparr>currentBatch = b, paused = False, world = w\<rparr>) =
     fin (hand_over call await (groups batchSize (b @ rows)) w)"
proof (induction rows arbitrary: b w)
  case Nil
  then show ?case
    by (cases "b = []")
       (simp_all add: end_of_stream_def on_end_def groups_Nil groups_short)
next
  case (Cons r rs)
  have pos: "0 < batchSize" by (simp add: batchSize_def)
  show ?case
  proof (cases "length (b @ [r]) \<ge> batchSize")
    case False
    then have lt: "length (b @ [r]) < batchSize" by simp
    have "world (stream_events call await fin (r # rs)
            \<lparr>currentBatch = b, paused = False, world = w\<rparr>) =
          world (stream_events call await fin rs
            \<lparr>currentBatch = b @ [r], paused = False, world = w\<rparr>)"
      using False by (simp add: on_data_def)
    also have "\<dots> = fin (hand_over call await (groups batchSize ((b @ [r]) @ rs)) w)"
      by (rule Cons.IH [OF lt])
    finally show ?thesis by simp
  next
    case True
    with Cons.prems have len: "length (b @ [r]) = batchSize" by simp
    let ?p1 = "\<lparr>currentBatch = b @ [r], paused = True, world = call (b @ [r]) w\<rparr>"
    have data: "on_data call r \<lparr>currentBatch = b, paused = False, world = w\<rparr> = ?p1"
      using True by (simp add: on_data_def Let_def)
    show ?thesis
    proof (cases "rs = []")
      case True
      have "groups batchSize (b @ [r]) = [b @ [r]]"
        using len by (intro groups_short) auto
      moreover have "world (end_of_stream call await fin ?p1) =
          fin (await (call (b @ [r]) (call (b @ [r]) w)))"
        using len pos by (simp add: end_of_stream_def on_end_def on_then_def)
      ultimately show ?thesis
        using True data len by simp
    next
      case False
      then obtain g' gs where gs: "groups batchSize rs = g' # gs"
        using pos by (cases "groups batchSize rs") (auto simp: groups.simps [of batchSize rs])
      have "world (stream_events call await fin (r # rs)
              \<lparr>currentBatch = b, paused = False, world = w\<rparr>) =
            world (stream_events call await fin rs
              \<lparr>currentBatch = [], paused = False, world = await (call (b @ [r]) w)\<rparr>)"
        using False data by (simp add: on_then_def)
      also have "\<dots> = fin (hand_over call await (groups batchSize ([] @ rs))
          (await (call (b @ [r]) w)))"
        using pos by (intro Cons.IH) simp
      also have "\<dots> = fin (hand_over call await (groups batchSize ((b @ [r]) @ rs)) w)"
        using groups_full [OF pos len, of rs] gs by simp
      finally show ?thesis by simp
    qed
  qed
qed

lemma hand_over_fold:
  "hand_over call await gs w =
     (if gs \<noteq> [] \<and> length (last gs) \<ge> batchSize
      then await (call (last gs) (call (last gs) (fold (\<lambda>g w. await (call g w)) (butlast gs) w)))
      else fold (\<lambda>g w. await (call g w)) gs w)"
  by (induction call await gs w rule: hand_over.induct) simp_all

lemma last_group_full:
  "0 < n \<Longrightarrow> xs \<noteq> [] \<Longrightarrow> length (last (groups n xs)) \<ge> n \<longleftrightarrow> length xs mod n = 0"
proof (induction n xs rule: groups.induct)
  case (1 n xs)
  have eq: "groups n xs = take n xs # groups n (drop n xs)"
    using 1(2,3) by (subst groups.simps) simp
  show ?case
  proof (cases "drop n xs = []")
    case True
    with eq have "last (groups n xs) = xs" by (simp add: groups_Nil)
    moreover from True have "length xs \<le> n" by simp
    ultimately show ?thesis
      using 1(2,3) by (cases "length xs = n") auto
  next
    case False
    then have "groups n (drop n xs) \<noteq> []"
      using 1(2) by (subst groups.simps) simp
    with eq have "last (groups n xs) = last (groups n (drop n xs))" by simp
    moreover from False have "n \<le> length xs" by simp
    then have "length xs mod n = (length xs - n) mod n"
      by (simp add: le_mod_geq)
    ultimately show ?thesis
      using 1(1) [OF _ 1(2) False] 1(2,3) by simp
  qed
qed

lemma fold_calls:
  "fold (\<lambda>g w. await_calls acc (call_processBatch g w)) gs \<lparr>pending = [], app = st\<rparr> =
     \<lparr>pending = [], app = fold (processBatch acc) gs st\<rparr>"
  by (induction gs arbitrary: st)
     (simp_all add: await_calls_def call_processBatch_def settle_alone)

lemma populateDatabase_runs:
  "populateDatabase acc rows db =
     completed
       (if rows \<noteq> [] \<and> length rows mod batchSize = 0
        then settle acc [last (groups batchSize rows), last (groups batchSize rows)]
               (fold (processBatch acc) (butlast (groups batchSize rows)) (connect db))
        else fold (processBatch acc) (groups batchSize rows) (connect db))"
proof -
  have pos: "0 < batchSize" by (simp add: batchSize_def)
  let ?gs = "groups batchSize rows"
  have run: "populateDatabase acc rows db =
      app (finish_run (hand_over call_processBatch (await_calls acc) ?gs
        \<lparr>pending = [], app = connect db\<rparr>))"
    unfolding populateDatabase_def
    using stream_events_hand_over [of "[]" call_processBatch "await_calls acc" finish_run rows
        "\<lparr>pending = [], app = connect db\<rparr>"] pos
    by simp
  show ?thesis
  proof (cases "rows = []")
    case True
    with run show ?thesis by (simp add: groups_Nil finish_run_def)
  next
    case False
    then have ne: "?gs \<noteq> []"
      using pos by (subst groups.simps) simp
    from last_group_full [OF pos False] have
      full: "length (last ?gs) \<ge> batchSize \<longleftrightarrow> length rows mod batchSize = 0" .
    have "hand_over call_processBatch (await_calls acc) ?gs \<lparr>pending = [], app = connect db\<rparr> =
        (if length rows mod batchSize = 0
         then await_calls acc (call_processBatch (last ?gs) (call_processBatch (last ?gs)
                \<lparr>pending = [], app = fold (processBatch acc) (butlast ?gs) (connect db)\<rparr>))
         else \<lparr>pending = [], app = fold (processBatch acc) ?gs (connect db)\<rparr>)"
      using ne full by (simp add: hand_over_fold fold_calls)
    with run False show ?thesis
      by (simp add: finish_run_def await_calls_def call_processBatch_def)
  qed
qed

lemma populateDatabase_ragged:
  "length rows mod batchSize \<noteq> 0 \<Longrightarrow>
   populateDatabase acc rows db =
     completed (fold (processBatch acc) (groups batchSize rows) (connect db))"
  by (simp add: populateDatabase_runs)

section \<open>Two calls with the same batch\<close>

lemma set_doubled [simp]: "set (doubled xs) = set xs"
  by (induction xs) auto


lemma errors_logged_twice:
  "errors_logged (console (settle acc [g, g] st)) =
     errors_logged (console st) +
     (if fst (run_queries acc (doubled (batch_queries g)) (client st)) = None then 0 else 2)"
  by (cases "run_queries acc (doubled (batch_queries g)) (client st)")
     (auto simp: settle_twice errors_logged_append split: option.splits)

lemma twice_covers: "covers (client (settle acc [g, g] st)) (client st)"
proof -
  obtain r db' where run: "run_queries acc (doubled (batch_queries g)) (client st) = (r, db')"
    by (cases "run_queries acc (doubled (batch_queries g)) (client st)")
  show ?thesis
  proof (cases r)
    case None
    with run run_queries_ok [of acc "doubled (batch_queries g)" "client st" db'] show ?thesis
      by (simp add: settle_twice)
  next
    case (Some e)
    with run show ?thesis
      by (simp add: settle_twice covers_same_tables)
  qed
qed

lemma twice_settled:
  assumes "\<forall>q \<in> set (batch_queries g). settled acc q (client st)"
  shows "customers (client (settle acc [g, g] st)) = customers (client st) \<and>
         products (client (settle acc [g, g] st)) = products (client st) \<and>
         invoices (client (settle acc [g, g] st)) = invoices (client st) \<and>
         length (invoice_items (client (settle acc [g, g] st))) =
           length (invoice_items (client st)) + item_count (doubled (batch_queries g)) \<and>
         processedRows (settle acc [g, g] st) = processedRows st + length g + length g \<and>
         console (settle acc [g, g] st) =
           console st @ [Processed (processedRows st + length g),
                         Processed (processedRows st + length g + length g)]"
proof -
  from assms have "\<forall>q \<in> set (doubled (batch_queries g)). settled acc q (client st)"
    by simp
  from run_queries_settled [OF this] obtain d' where
    "run_queries acc (doubled (batch_queries g)) (client st) = (None, d')"
    "customers d' = customers (client st)" "products d' = products (client st)"
    "invoices d' = invoices (client st)"
    "length (invoice_items d') =
       length (invoice_items (client st)) + item_count (doubled (batch_queries g))"
    by blast
  then show ?thesis by (simp add: settle_twice)
qed

lemma twice_flags:
  assumes "cancel_flags_ok (client st)"
  shows "cancel_flags_ok (client (settle acc [g, g] st))"
proof -
  obtain r db' where run: "run_queries acc (doubled (batch_queries g)) (client st) = (r, db')"
    by (cases "run_queries acc (doubled (batch_queries g)) (client st)")
  from run_queries_flags [of "doubled (batch_queries g)" "client st" acc] assms run
  have ok: "cancel_flags_ok db'" by (auto dest: batch_queries_issued)
  show ?thesis
  proof (cases r)
    case None
    with run ok show ?thesis by (simp add: settle_twice)
  next
    case (Some e)
    with run assms show ?thesis by (simp add: settle_twice cancel_flags_ok_def)
  qed
qed


lemma rerun_twice:
  assumes "errors_logged (console (settle acc [g, g] st)) = errors_logged (console st)"
    and "covers (client st') (client (settle acc [g, g] st))"
  shows "customers (client (settle acc [g, g] st')) = customers (client st') \<and>
         products (client (settle acc [g, g] st')) = products (client st') \<and>
         invoices (client (settle acc [g, g] st')) = invoices (client st') \<and>
         length (invoice_items (client (settle acc [g, g] st'))) +
           length (invoice_items (client st)) =
         length (invoice_items (client st')) +
           length (invoice_items (client (settle acc [g, g] st))) \<and>
         errors_logged (console (settle acc [g, g] st')) = errors_logged (console st')"
proof -
  from assms(1) have "fst (run_queries acc (doubled (batch_queries g)) (client st)) = None"
    by (simp add: errors_logged_twice split: if_splits)
  then obtain db1 where run: "run_queries acc (doubled (batch_queries g)) (client st) = (None, db1)"
    by (cases "run_queries acc (doubled (batch_queries g)) (client st)") auto
  then have s1: "client (settle acc [g, g] st) = db1" by (simp add: settle_twice)
  from run_queries_ok [OF run] have
    len1: "length (invoice_items db1) =
       length (invoice_items (client st)) + item_count (doubled (batch_queries g))"
    and set1: "\<forall>q \<in> set (batch_queries g). settled acc q db1"
    by simp_all
  from set1 assms(2) s1 have "\<forall>q \<in> set (batch_queries g). settled acc q (client st')"
    by (auto intro: settled_covers)
  from twice_settled [OF this] len1 s1 show ?thesis
    by (simp add: errors_logged_append)
qed

section \<open>A source of two full groups\<close>

lemma groups_two_full:
  "length g = batchSize \<Longrightarrow> length g' = batchSize \<Longrightarrow> groups batchSize (g @ g') = [g, g']"
proof -
  assume len: "length g = batchSize" "length g' = batchSize"
  then have "g' \<noteq> []" by (auto simp: batchSize_def)
  with len show ?thesis
    using groups_full [of batchSize g g'] groups_short [of g' batchSize]
    by (simp add: batchSize_def)
qed

lemma hand_over_two_full:
  "length g = batchSize \<Longrightarrow> length g' = batchSize \<Longrightarrow>
   hand_over call await [g, g'] w = await (call g' (call g' (await (call g w))))"
  by simp

lemma observed_two_full:
  assumes "length g = batchSize" "length g' = batchSize"
  shows "observed (g @ g') =
    \<lparr>in_flight = 0, peak = 2,
     trace = [Handed g, Returned, Handed g', Handed g', Returned, Returned, Signalled]\<rparr>"
proof -
  have "observed (g @ g') =
      observe_end (hand_over observe_call observe_return (groups batchSize ([] @ (g @ g')))
        \<lparr>in_flight = 0, peak = 0, trace = []\<rparr>)"
    unfolding observed_def by (rule stream_events_hand_over) (simp add: batchSize_def)
  also have "\<dots> = observe_end (observe_return (observe_call g' (observe_call g'
      (observe_return (observe_call g \<lparr>in_flight = 0, peak = 0, trace = []\<rparr>)))))"
    using assms by (simp only: append_Nil groups_two_full hand_over_two_full)
  also have "\<dots> = \<lparr>in_flight = 0, peak = 2,
     trace = [Handed g, Returned, Handed g', Handed g', Returned, Returned, Signalled]\<rparr>"
    by (simp add: observe_end_def observe_return_def observe_call_def numeral_2_eq_2)
  finally show ?thesis .
qed



lemma fold_observe:
  "in_flight ob = 0 \<Longrightarrow>
   fold (\<lambda>g w. observe_return (observe_call g w)) gs ob =
     \<lparr>in_flight = 0, peak = (if gs = [] then peak ob else max (peak ob) 1),
      trace = trace ob @ concat (map (\<lambda>g. [Handed g, Returned]) gs)\<rparr>"
proof (induction gs arbitrary: ob)
  case Nil
  then show ?case by simp
next
  case (Cons g gs)
  let ?ob = "observe_return (observe_call g ob)"
  from Cons.prems have ob: "?ob = \<lparr>in_flight = 0, peak = max (peak ob) 1,
      trace = trace ob @ [Handed g, Returned]\<rparr>"
    by (simp add: observe_return_def observe_call_def)
  then have "in_flight ?ob = 0" by simp
  from Cons.IH [OF this] show ?case
    by (simp add: ob)
qed

lemma observed_ragged:
  assumes "length rows mod batchSize \<noteq> 0"
  shows "trace (observed rows) =
           concat (map (\<lambda>g. [Handed g, Returned]) (groups batchSize rows)) @ [Signalled] \<and>
         peak (observed rows) = 1"
proof -
  have pos: "0 < batchSize" by (simp add: batchSize_def)
  from assms have ne: "rows \<noteq> []" by auto
  then have gne: "groups batchSize rows \<noteq> []"
    using concat_groups [OF pos, of rows] by auto
  have "observed rows =
      observe_end (hand_over observe_call observe_return (groups batchSize ([] @ rows))
        \<lparr>in_flight = 0, peak = 0, trace = []\<rparr>)"
    unfolding observed_def by (rule stream_events_hand_over) (simp add: batchSize_def)
  also have "\<dots> = observe_end (fold (\<lambda>g w. observe_return (observe_call g w))
      (groups batchSize rows) \<lparr>in_flight = 0, peak = 0, trace = []\<rparr>)"
    using assms last_group_full [OF pos ne] by (simp add: hand_over_fold)
  finally show ?thesis
    using gne by (simp add: fold_observe observe_end_def)
qed





lemma fold_processBatch_count:
  "processedRows (fold (processBatch acc) gs st) =
     processedRows st + sum_list (map length (committed acc gs (client st))) \<and>
   reported (console (fold (processBatch acc) gs st)) =
     reported (console st) @
     running_totals (processedRows st) (map length (committed acc gs (client st)))"
proof (induction gs arbitrary: st)
  case Nil
  show ?case by simp
next
  case (Cons g gs)
  obtain r db' where run: "run_queries acc (batch_queries g) (client st) = (r, db')"
    by (cases "run_queries acc (batch_queries g) (client st)")
  show ?case
  proof (cases r)
    case None
    with run show ?thesis
      using Cons.IH [of "processBatch acc g st"]
      by (simp add: processBatch_committed reported_append)
  next
    case (Some e)
    with run show ?thesis
      using Cons.IH [of "processBatch acc g st"]
      by (simp add: processBatch_failed reported_append)
  qed
qed

lemma processedRows_ragged:
  assumes "length rows mod batchSize \<noteq> 0"
  shows "processedRows (populateDatabase acc rows db) =
           sum_list (map length (committed acc (groups batchSize rows) db)) \<and>
         reported (console (populateDatabase acc rows db)) =
           running_totals 0 (map length (committed acc (groups batchSize rows) db))"
  using fold_processBatch_count [of acc "groups batchSize rows" "connect db"]
  by (simp add: populateDatabase_ragged [OF assms] completed_def connect_def reported_append)


section \<open>Runs\<close>

lemma populateDatabase_flags:
  "cancel_flags_ok db \<Longrightarrow> cancel_flags_ok (client (populateDatabase acc rows db))"
  by (simp add: populateDatabase_runs completed_def fold_processBatch_flags twice_flags
      connect_def)


lemma errors_logged_settle_twice_mono:
  "errors_logged (console st) \<le> errors_logged (console (settle acc [g, g] st))"
  by (simp add: errors_logged_twice)

lemma example_groups:
  "length rows mod batchSize \<noteq> 0 \<Longrightarrow> length rows \<le> batchSize \<Longrightarrow>
   populateDatabase acc rows db = completed (processBatch acc rows (connect db))"
  by (cases "rows = []") (simp_all add: populateDatabase_ragged groups_short)

section \<open>The transaction of a group\<close>



section \<open>The statements of a record\<close>











section \<open>The cancellation flag\<close>

text \<open>
  C3. The invoice statement of a record is issued exactly when its invoice identifier is
  a non-empty string, and its flag is true exactly when that string begins with the
  letter C. A batch and a run keep the store such that every invoice row is flagged as
  cancelled exactly when its identifier begins with C.
\<close>

theorem is_cancelled_iff_prefix_C:
  "filter (\<lambda>q. table_of q = Invoices) (row_queries r) =
     (case InvoiceNo r of
        None \<Rightarrow> []
      | Some no \<Rightarrow>
          if no = [] then []
          else [InsertInvoice (Some no) (CustomerID r) (InvoiceDate r) (Country r)
                  (no ! 0 = CHR ''C'')]) \<and>
   (cancel_flags_ok (client st) \<longrightarrow> cancel_flags_ok (client (processBatch acc batch st))) \<and>
   (cancel_flags_ok db \<longrightarrow> cancel_flags_ok (client (populateDatabase acc rows db))) \<and>
   (cancel_flags_ok db \<longleftrightarrow>
      list_all (\<lambda>i. i_is_cancelled i \<longleftrightarrow> (\<exists>t. i_invoice_id i = CHR ''C'' # t)) (invoices db))"
proof -
  have "filter (\<lambda>q. table_of q = Invoices) (row_queries r) =
     (case InvoiceNo r of
        None \<Rightarrow> []
      | Some no \<Rightarrow>
          if no = [] then []
          else [InsertInvoice (Some no) (CustomerID r) (InvoiceDate r) (Country r)
                  (no ! 0 = CHR ''C'')])"
    by (cases "InvoiceNo r")
       (auto simp: row_queries_def startsWith_C neq_Nil_conv)
  moreover have "cancel_flags_ok db \<longrightarrow> cancel_flags_ok (client (populateDatabase acc rows db))"
    by (simp add: populateDatabase_flags)
  moreover have "cancel_flags_ok db \<longleftrightarrow>
      list_all (\<lambda>i. i_is_cancelled i \<longleftrightarrow> (\<exists>t. i_invoice_id i = CHR ''C'' # t)) (invoices db)"
    by (simp add: cancel_flags_ok_def startsWith_C)
  ultimately show ?thesis
    using processBatch_flags by blast
qed

theorem is_cancelled_iff_prefix_C_witness:
  "cancel_flags_ok empty_store \<and>
   cancel_flags_ok (client (populateDatabase sample_input
      [example_row1, example_row2, example_row3] empty_store)) \<and>
   map i_is_cancelled (invoices (client (populateDatabase sample_input
      [example_row1, example_row2, example_row3] empty_store))) = [False, True, False]"
proof -
  have h: "cancel_flags_ok empty_store" by code_simp
  have m: "map i_is_cancelled (invoices (client (populateDatabase sample_input
      [example_row1, example_row2, example_row3] empty_store))) = [False, True, False]"
    by code_simp
  from is_cancelled_iff_prefix_C [of _ "connect empty_store" sample_input "[]" empty_store
      "[example_row1, example_row2, example_row3]"] h m
  show ?thesis by simp
qed

section \<open>A second run over the same source\<close>

text \<open>
  C4, amended. When no group of the first run fails, a second run over the same records,
  started on the store that the first run left, leaves the customers, products and
  invoices as they are and inserts as many invoice items as the first run did: their
  number doubles when the first run started on a store without invoice items.
\<close>

theorem second_run_repeats_clean_first_run:
  assumes "errors_logged (console (populateDatabase acc rows db)) = 0"
  shows "customers (client (populateDatabase acc rows (client (populateDatabase acc rows db)))) =
           customers (client (populateDatabase acc rows db)) \<and>
         products (client (populateDatabase acc rows (client (populateDatabase acc rows db)))) =
           products (client (populateDatabase acc rows db)) \<and>
         invoices (client (populateDatabase acc rows (client (populateDatabase acc rows db)))) =
           invoices (client (populateDatabase acc rows db)) \<and>
         length (invoice_items
             (client (populateDatabase acc rows (client (populateDatabase acc rows db))))) +
           length (invoice_items db) =
         2 * length (invoice_items (client (populateDatabase acc rows db)))"
proof (cases "rows \<noteq> [] \<and> length rows mod batchSize = 0")
  case False
  let ?gs = "groups batchSize rows"
  let ?F = "fold (processBatch acc) ?gs (connect db)"
  let ?st' = "connect (client ?F)"
  from False have pd: "\<And>d. populateDatabase acc rows d =
      completed (fold (processBatch acc) ?gs (connect d))"
    by (auto simp: populateDatabase_runs)
  from assms have "errors_logged (console ?F) = errors_logged (console (connect db))"
    by (simp add: pd completed_def connect_def errors_logged_append)
  moreover have "covers (client ?st') (client ?F)"
    by (simp add: connect_def)
  ultimately have
    "customers (client (fold (processBatch acc) ?gs ?st')) = customers (client ?st') \<and>
     products (client (fold (processBatch acc) ?gs ?st')) = products (client ?st') \<and>
     invoices (client (fold (processBatch acc) ?gs ?st')) = invoices (client ?st') \<and>
     length (invoice_items (client (fold (processBatch acc) ?gs ?st'))) +
       length (invoice_items (client (connect db))) =
     length (invoice_items (client ?st')) + length (invoice_items (client ?F)) \<and>
     errors_logged (console (fold (processBatch acc) ?gs ?st')) = errors_logged (console ?st')"
    by (rule rerun_groups)
  then show ?thesis
    by (simp add: pd completed_def connect_def)
next
  case True
  let ?gs = "butlast (groups batchSize rows)" and ?l = "last (groups batchSize rows)"
  let ?Fa = "fold (processBatch acc) ?gs (connect db)"
  let ?F = "settle acc [?l, ?l] ?Fa"
  let ?st' = "connect (client ?F)"
  let ?Ga = "fold (processBatch acc) ?gs ?st'"
  let ?G = "settle acc [?l, ?l] ?Ga"
  from True have pd: "\<And>d. populateDatabase acc rows d =
      completed (settle acc [?l, ?l] (fold (processBatch acc) ?gs (connect d)))"
    by (simp add: populateDatabase_runs)
  from assms have e: "errors_logged (console ?F) = 0"
    by (simp add: pd completed_def errors_logged_append)
  have "errors_logged (console (connect db)) \<le> errors_logged (console ?Fa)"
    by (rule errors_logged_fold)
  moreover have "errors_logged (console ?Fa) \<le> errors_logged (console ?F)"
    by (rule errors_logged_settle_twice_mono)
  ultimately have e0: "errors_logged (console ?Fa) = errors_logged (console (connect db))"
    and e1: "errors_logged (console ?F) = errors_logged (console ?Fa)"
    using e by simp_all
  have "covers (client ?st') (client ?F)" by (simp add: connect_def)
  moreover have "covers (client ?F) (client ?Fa)" by (rule twice_covers)
  ultimately have "covers (client ?st') (client ?Fa)" by (rule covers_trans)
  from rerun_groups [OF e0 this] have
    g0: "customers (client ?Ga) = customers (client ?st')"
        "products (client ?Ga) = products (client ?st')"
        "invoices (client ?Ga) = invoices (client ?st')"
    and l0: "length (invoice_items (client ?Ga)) + length (invoice_items (client (connect db))) =
       length (invoice_items (client ?st')) + length (invoice_items (client ?Fa))"
    by simp_all
  from covers_same_tables [OF g0] have "covers (client ?Ga) (client ?F)"
    by (simp add: connect_def)
  from rerun_twice [OF e1 this] have
    g: "customers (client ?G) = customers (client ?Ga)"
       "products (client ?G) = products (client ?Ga)"
       "invoices (client ?G) = invoices (client ?Ga)"
    and l: "length (invoice_items (client ?G)) + length (invoice_items (client ?Fa)) =
       length (invoice_items (client ?Ga)) + length (invoice_items (client ?F))"
    by simp_all
  from g g0 l l0 show ?thesis
    by (simp add: pd completed_def connect_def)
qed

theorem second_run_repeats_clean_first_run_witness:
  "errors_logged (console (populateDatabase sample_input
      [example_row1, example_row2, example_row3] empty_store)) = 0 \<and>
   length (invoice_items (client (populateDatabase sample_input
      [example_row1, example_row2, example_row3] empty_store))) = 2 \<and>
   length (invoice_items (client (populateDatabase sample_input
      [example_row1, example_row2, example_row3]
      (client (populateDatabase sample_input
         [example_row1, example_row2, example_row3] empty_store))))) = 4 \<and>
   invoices (client (populateDatabase sample_input
      [example_row1, example_row2, example_row3]
      (client (populateDatabase sample_input
         [example_row1, example_row2, example_row3] empty_store)))) =
   invoices (client (populateDatabase sample_input
      [example_row1, example_row2, example_row3] empty_store))"
proof -
  have h: "errors_logged (console (populateDatabase sample_input
      [example_row1, example_row2, example_row3] empty_store)) = 0"
    by code_simp
  have l: "length (invoice_items (client (populateDatabase sample_input
      [example_row1, example_row2, example_row3] empty_store))) = 2"
    by code_simp
  have e: "invoice_items empty_store = []"
    by (simp add: empty_store_def)
  from second_run_repeats_clean_first_run [OF h] h l e show ?thesis by simp
qed

lemma late_first_group:
  "processBatch sample_input (replicate 1000 undescribed_row) (connect empty_store) =
     \<lparr>client = empty_store\<lparr>invoice_items_id_seq := 1\<rparr>, processedRows = 0,
      console = [Connected, ErrorProcessingBatch foreign_key_violation]\<rparr>"
proof -
  have one: "processBatch sample_input [undescribed_row] (connect empty_store) =
     \<lparr>client = empty_store\<lparr>invoice_items_id_seq := 1\<rparr>, processedRows = 0,
      console = [Connected, ErrorProcessingBatch foreign_key_violation]\<rparr>"
    by code_simp
  obtain r db' where run:
    "run_queries sample_input (row_queries undescribed_row) empty_store = (r, db')"
    by (cases "run_queries sample_input (row_queries undescribed_row) empty_store")
  have "group_fails sample_input [undescribed_row] empty_store"
    by code_simp
  with run obtain e where r: "r = Some e"
    by (auto simp: group_fails_def batch_queries_def)
  have "replicate 1000 undescribed_row = undescribed_row # replicate 999 undescribed_row"
    by (simp add: numeral_eq_Suc)
  then have "batch_queries (replicate 1000 undescribed_row) =
      row_queries undescribed_row @ batch_queries (replicate 999 undescribed_row)"
    by (simp add: batch_queries_Cons)
  with run r have
    "run_queries sample_input (batch_queries (replicate 1000 undescribed_row)) empty_store =
       (Some e, db')"
    by (simp add: run_queries_fails_first)
  moreover from run r have
    "run_queries sample_input (batch_queries [undescribed_row]) empty_store = (Some e, db')"
    by (simp add: batch_queries_def)
  ultimately have
    "processBatch sample_input (replicate 1000 undescribed_row) (connect empty_store) =
     processBatch sample_input [undescribed_row] (connect empty_store)"
    by (simp add: processBatch_failed connect_def)
  with one show ?thesis by simp
qed

lemma late_ragged: "length late_description_rows mod batchSize \<noteq> 0"
  by (simp add: late_description_rows_def batchSize_def)

lemma late_groups:
  "groups batchSize late_description_rows = [replicate 1000 undescribed_row, [example_row1]]"
  by (simp add: late_description_rows_def groups_1001)

lemma late_first_run:
  "client (populateDatabase sample_input late_description_rows empty_store) = late_first_store"
  by (simp add: populateDatabase_ragged late_ragged late_groups late_first_group completed_def
      late_first_store_def)

lemma late_first_items: "length (invoice_items late_first_store) = 1"
  by code_simp

lemma late_settled:
  "list_all (\<lambda>q. settled sample_input q late_first_store)
     (row_queries undescribed_row @ row_queries example_row1)"
  by code_simp

lemma late_item_counts:
  "item_count (row_queries undescribed_row) = 1" "item_count (row_queries example_row1) = 1"
  by code_simp+

lemma late_second_run:
  "length (invoice_items
     (client (populateDatabase sample_input late_description_rows late_first_store))) = 1002"
proof -
  let ?s0 = "connect late_first_store"
  let ?s1 = "processBatch sample_input (replicate 1000 undescribed_row) ?s0"
  let ?s2 = "processBatch sample_input [example_row1] ?s1"
  from late_settled have all:
    "\<forall>q \<in> set (row_queries undescribed_row). settled sample_input q late_first_store"
    "\<forall>q \<in> set (row_queries example_row1). settled sample_input q late_first_store"
    by (simp_all add: list_all_iff)
  from all(1) batch_queries_replicate [of 1000 undescribed_row] have
    "\<forall>q \<in> set (batch_queries (replicate 1000 undescribed_row)). settled sample_input q (client ?s0)"
    by (auto simp: connect_def)
  from processBatch_settled [OF this] batch_queries_replicate [of 1000 undescribed_row] have
    s1: "customers (client ?s1) = customers late_first_store"
        "products (client ?s1) = products late_first_store"
        "invoices (client ?s1) = invoices late_first_store"
    and l1: "length (invoice_items (client ?s1)) = 1001"
    by (simp_all add: connect_def late_first_items late_item_counts)
  from covers_same_tables [OF s1] all(2) have
    "\<forall>q \<in> set (batch_queries [example_row1]). settled sample_input q (client ?s1)"
    by (auto simp: batch_queries_def intro: settled_covers)
  from processBatch_settled [OF this] l1 have "length (invoice_items (client ?s2)) = 1002"
    by (simp add: batch_queries_def late_item_counts)
  then show ?thesis
    by (simp add: populateDatabase_ragged late_ragged late_groups completed_def)
qed

text \<open>
  C4, as stated, fails on a source whose first group is rolled back in the first run, for
  want of a product row, and commits in the second run, where the row written by the later
  group is found: one invoice item after the first run, 1002 after the second.
\<close>

theorem second_run_counterexample:
  "length (invoice_items
     (client (populateDatabase sample_input late_description_rows empty_store))) = 1 \<and>
   length (invoice_items
     (client (populateDatabase sample_input late_description_rows
        (client (populateDatabase sample_input late_description_rows empty_store))))) = 1002 \<and>
   length (invoice_items
     (client (populateDatabase sample_input late_description_rows
        (client (populateDatabase sample_input late_description_rows empty_store))))) \<noteq>
   2 * length (invoice_items
     (client (populateDatabase sample_input late_description_rows empty_store)))"
  by (simp add: late_first_run late_first_items late_second_run)

section \<open>Referential integrity of a record\<close>




section \<open>A source whose records fill the last group\<close>

text \<open>
  C6. The claim has every record handed to the loader exactly once. The handlers do so
  unless the last record fills the buffer: then the \<open>end\<close> handler finds the buffer still
  full, because only the \<open>then\<close> callback of the pending call empties it, and hands the
  same group over again. For a source of 2000 records the loader is called three times,
  with the first thousand, the second thousand and the second thousand again: 3000 records
  are handed over for 2000 read.
\<close>

theorem last_full_group_handed_twice:
  "trace (observed (replicate 1000 example_row1 @ replicate 1000 example_row2)) =
     [Handed (replicate 1000 example_row1), Returned,
      Handed (replicate 1000 example_row2), Handed (replicate 1000 example_row2),
      Returned, Returned, Signalled] \<and>
   length (replicate 1000 example_row1 @ replicate 1000 example_row2) = 2000 \<and>
   length (handed (trace (observed
     (replicate 1000 example_row1 @ replicate 1000 example_row2)))) = 3000"
  by (simp add: observed_two_full batchSize_def)

text \<open>
  C7. The claim has at most one group in flight at the loader. When the last record fills
  the buffer, the \<open>end\<close> handler calls \<open>processBatch\<close> while the call made by the \<open>data\<close>
  handler has not returned: after the two events both calls are pending on the
  connection, with the same records, and over a source of 2000 records the highest
  number of calls in flight is two.
\<close>

theorem two_calls_in_flight:
  "peak (observed (replicate 1000 example_row1 @ replicate 1000 example_row2)) = 2 \<and>
   pending (world (on_end call_processBatch (on_data call_processBatch example_row2
     \<lparr>currentBatch = replicate 999 example_row2, paused = False,
      world = \<lparr>pending = [], app = connect empty_store\<rparr>\<rparr>))) =
     [replicate 999 example_row2 @ [example_row2], replicate 999 example_row2 @ [example_row2]]"
  by (simp add: observed_two_full on_end_def on_data_def Let_def call_processBatch_def
      batchSize_def)


section \<open>An empty customer cell\<close>

text \<open>
  C8. For a record with an empty customer cell the invoice statement carries the empty
  string, not \<open>NULL\<close>, as customer identifier. On the empty store no customer has that
  key: the statement violates the foreign key, the group is rolled back and no invoice
  row is stored. The same record without the customer field commits, and its invoice has
  no customer.
\<close>

theorem guest_invoice_violates_foreign_key:
  "row_queries guest_row =
     [InsertProduct (Some ''22139'') (Some ''RETROSPOT TEA SET CERAMIC 11 PC''),
      InsertInvoice (Some ''536414'') (Some []) (Some ''2010-12-01 11:52:00'')
        (Some ''United Kingdom'') False,
      InsertInvoiceItem (Some ''536414'') (Some ''22139'') (Some ''56'') (Some ''0.00'')] \<and>
   console (populateDatabase sample_input [guest_row] empty_store) =
     [Connected, ErrorProcessingBatch foreign_key_violation, Completed] \<and>
   invoices (client (populateDatabase sample_input [guest_row] empty_store)) = [] \<and>
   console (populateDatabase sample_input [guest_row\<lparr>CustomerID := None\<rparr>] empty_store) =
     [Connected, Processed 1, Completed] \<and>
   map i_customer_id
     (invoices (client (populateDatabase sample_input [guest_row\<lparr>CustomerID := None\<rparr>]
        empty_store))) = [None]"
  by code_simp

section \<open>The end-to-end example\<close>

text \<open>
  C9, as stated, counts two invoice rows for the example of three records; the run stores
  a third one for invoice 536367.
\<close>

theorem example_invoice_rows_counterexample:
  "map i_invoice_id (invoices (client (populateDatabase sample_input
      [example_row1, example_row2, example_row3] empty_store))) =
     [''536365'', ''C536366'', ''536367''] \<and>
   length (invoices (client (populateDatabase sample_input
      [example_row1, example_row2, example_row3] empty_store))) \<noteq> 2"
  by code_simp

text \<open>
  C9, amended. For the three records of the example, the third one completed with the
  customer and country of the other two, a run on the empty store yields one customer
  (17850, United Kingdom), one product (85123A), three invoices (536365 not cancelled,
  C536366 cancelled, 536367 not cancelled) and two invoice items; the third record
  adds no product and no invoice item.
\<close>

theorem example_end_to_end:
  assumes "acc Timestamp ''2010-12-01 08:26:00''" "acc Timestamp ''2010-12-01 08:28:00''"
    "acc Timestamp ''2010-12-01 08:34:00''" "acc Integer ''6''" "acc Integer ''-1''"
    "acc Numeric ''2.55''"
  shows "client (populateDatabase acc [example_row1, example_row2, example_row3] empty_store) =
    \<lparr>customers = [\<lparr>c_customer_id = ''17850'', c_country = Some ''United Kingdom''\<rparr>],
     products = [\<lparr>p_stock_code = ''85123A'',
                  p_description = Some ''WHITE HANGING HEART T-LIGHT HOLDER'',
                  p_popularity_score = 0\<rparr>],
     invoices =
       [\<lparr>i_invoice_id = ''536365'', i_customer_id = Some ''17850'',
         i_invoice_date = Some ''2010-12-01 08:26:00'', i_country = Some ''United Kingdom'',
         i_is_cancelled = False\<rparr>,
        \<lparr>i_invoice_id = ''C536366'', i_customer_id = Some ''17850'',
         i_invoice_date = Some ''2010-12-01 08:28:00'', i_country = Some ''United Kingdom'',
         i_is_cancelled = True\<rparr>,
        \<lparr>i_invoice_id = ''536367'', i_customer_id = Some ''17850'',
         i_invoice_date = Some ''2010-12-01 08:34:00'', i_country = Some ''United Kingdom'',
         i_is_cancelled = False\<rparr>],
     invoice_items =
       [\<lparr>ii_id = 1, ii_invoice_id = Some ''536365'', ii_stock_code = Some ''85123A'',
         ii_quantity = Some ''6'', ii_unit_price = Some ''2.55''\<rparr>,
        \<lparr>ii_id = 2, ii_invoice_id = Some ''C536366'', ii_stock_code = Some ''85123A'',
         ii_quantity = Some ''-1'', ii_unit_price = Some ''2.55''\<rparr>],
     invoice_items_id_seq = 2\<rparr>"
proof -
  have q1: "row_queries example_row1 =
      [InsertCustomer (Some ''17850'') (Some ''United Kingdom''),
       InsertProduct (Some ''85123A'') (Some ''WHITE HANGING HEART T-LIGHT HOLDER''),
       InsertInvoice (Some ''536365'') (Some ''17850'') (Some ''2010-12-01 08:26:00'')
         (Some ''United Kingdom'') False,
       InsertInvoiceItem (Some ''536365'') (Some ''85123A'') (Some ''6'') (Some ''2.55'')]"
    by code_simp
  have q2: "row_queries example_row2 =
      [InsertCustomer (Some ''17850'') (Some ''United Kingdom''),
       InsertInvoice (Some ''C536366'') (Some ''17850'') (Some ''2010-12-01 08:28:00'')
         (Some ''United Kingdom'') True,
       InsertInvoiceItem (Some ''C536366'') (Some ''85123A'') (Some ''-1'') (Some ''2.55'')]"
    by code_simp
  have q3: "row_queries example_row3 =
      [InsertCustomer (Some ''17850'') (Some ''United Kingdom''),
       InsertInvoice (Some ''536367'') (Some ''17850'') (Some ''2010-12-01 08:34:00'')
         (Some ''United Kingdom'') False]"
    by code_simp
  have g: "populateDatabase acc [example_row1, example_row2, example_row3] empty_store =
      completed (processBatch acc [example_row1, example_row2, example_row3]
        (connect empty_store))"
    by (rule example_groups) (simp_all add: batchSize_def)
  show ?thesis
    unfolding g using assms
    by (simp add: completed_def connect_def processBatch_def
        batch_queries_def q1 q2 q3 client_query_def bind_err_def varchar_def text_in_def
        customer_keys_def product_keys_def invoice_keys_def references_def empty_store_def)
qed

theorem example_end_to_end_witness:
  "sample_input Timestamp ''2010-12-01 08:26:00'' \<and> sample_input Timestamp ''2010-12-01 08:28:00'' \<and>
   sample_input Timestamp ''2010-12-01 08:34:00'' \<and> sample_input Integer ''6'' \<and>
   sample_input Integer ''-1'' \<and> sample_input Numeric ''2.55'' \<and>
   length (invoices (client (populateDatabase sample_input
     [example_row1, example_row2, example_row3] empty_store))) = 3"
proof -
  have h: "sample_input Timestamp ''2010-12-01 08:26:00''"
    "sample_input Timestamp ''2010-12-01 08:28:00''"
    "sample_input Timestamp ''2010-12-01 08:34:00''" "sample_input Integer ''6''"
    "sample_input Integer ''-1''" "sample_input Numeric ''2.55''"
    by code_simp+
  from example_end_to_end [OF h] h show ?thesis by simp
qed

end
